theory Spec2Isabelle
  imports Main "HOL-Library.Word"
begin

section \<open>Motion detection (motion.c): data model\<close>

text \<open>
  The C translation unit keeps its state in one file-scope struct \<open>mctx\<close>, in
  \<open>static\<close> locals of \<open>ma_filter\<close> and \<open>dumppng\<close>, and on the heap.  The model passes that state
  explicitly.  C \<open>int\<close> values are modelled as unbounded integers: every statement below
  is about executions in which no signed overflow occurs (signed overflow is undefined
  in C).  An access outside an array, a division by zero and a read through a null
  pointer are undefined in C as well; in the model every such step yields \<open>None\<close>, and
  so does a step at which the process is ended.
\<close>

type_synonym u8 = "8 word"
type_synonym u16 = "16 word"

text \<open>The operator \<open>/\<close> of C on \<open>int\<close> truncates towards zero.\<close>

definition cdiv :: "int \<Rightarrow> int \<Rightarrow> int" where
  "cdiv a b = sgn a * sgn b * (\<bar>a\<bar> div \<bar>b\<bar>)"

text \<open>\<open>struct motvec\<close>: one entry of the encoder's motion-vector buffer.\<close>

record motvec =
  dx :: "8 word"
  dy :: "8 word"
  sad :: "16 word"

text \<open>
  Modelled from the spec: \<open>enum movementevents\<close> is declared in motion.h, which is not
  part of the sources; the only enumerator motion.c uses is \<open>movement\<close> (the event kind
  MOVEMENT of the event callback).
\<close>

datatype movementevents = movement

text \<open>
  \<open>struct mctx\<close>.  The field \<open>map\<close> is called \<open>mapc\<close> here; \<open>vectors\<close> is a pointer
  (an address of the heap below, \<open>None\<close> for \<open>NULL\<close>); \<open>detectionthread\<close> records
  whether \<open>pthread_create\<close> has been called.  The mutex, the condition variable, the
  callback pointer and the file name of the diagnostic dump carry no data of the model.
\<close>

record mctx =
  width :: int
  height :: int
  mapc :: "u16 list"
  vectors :: "nat option"
  threshold :: int
  detectionthread :: bool
  flags :: int
  window_size :: int
  filter_window :: "int list"

text \<open>
  The whole state: the struct, the statics \<open>i\<close> and \<open>sum\<close> of \<open>ma_filter\<close>, the static
  \<open>fnum\<close> of \<open>dumppng\<close>, the invocations of the event callback \<open>eventcb\<close> in order, and
  the heap of frame buffers
  (\<open>heap\<close> lists every live buffer, its address and its contents, \<open>brk\<close> is the next
  address \<open>av_realloc\<close> hands out, \<open>freed\<close> lists the buffers given to \<open>av_free\<close> in
  order).
\<close>

record world = mctx +
  ma_i :: int
  ma_sum :: int
  events :: "(int \<times> movementevents) list"
  heap :: "(nat \<times> motvec list) list"
  brk :: nat
  freed :: "nat list"
  fnum :: int

text \<open>Array accesses \<open>a[k]\<close> and \<open>a[k] = v\<close> with an \<open>int\<close> index.\<close>

definition load_at :: "'a list \<Rightarrow> int \<Rightarrow> 'a option" where
  "load_at a k = (if 0 \<le> k \<and> k < int (length a) then Some (a ! nat k) else None)"

definition store_at :: "'a list \<Rightarrow> int \<Rightarrow> 'a \<Rightarrow> 'a list option" where
  "store_at a k v = (if 0 \<le> k \<and> k < int (length a) then Some (a[nat k := v]) else None)"

section \<open>The sensitivity map\<close>

text \<open>
  The file named by \<open>mf\<close>, as \<open>readmap\<close> sees it, one constructor for each way through
  the function: \<open>fopen\<close> fails; the first eight bytes are not a PNG signature;
  \<open>png_create_read_struct\<close> returns \<open>NULL\<close>; the first \<open>png_create_info_struct\<close> returns
  \<open>NULL\<close>; the second one does; or libpng decodes the file into rows of bytes (whatever
  its colour type).  A file that libpng rejects while decoding ends the process inside
  libpng and has no constructor.
\<close>

datatype mapfile =
  Unreadable | BadSignature | NoReadStruct | NoInfoStruct | NoEndInfoStruct
  | Png "u8 list list"

text \<open>The inner loop of \<open>readmap\<close>: \<open>for (j = 0; j < mctx.width-1; j++)\<close>.\<close>

function readmap_row :: "u16 list \<Rightarrow> int \<Rightarrow> u8 list \<Rightarrow> int \<Rightarrow> int \<Rightarrow> u16 list option" where
  "readmap_row m w r i j =
     (if j < w - 1 then
        (case load_at r j of
           None \<Rightarrow> None
         | Some p \<Rightarrow>
            (case store_at m (i * w + j) (word_of_int (uint p * uint p)) of
               None \<Rightarrow> None
             | Some m' \<Rightarrow> readmap_row m' w r i (j + 1)))
      else Some m)"
  by pat_completeness auto
termination
  by (relation "measure (\<lambda>(m, w, r, i, j). nat (w - 1 - j))") auto

declare readmap_row.simps [simp del]

text \<open>The outer loop of \<open>readmap\<close>: \<open>for (i = 0; i < mctx.height; i++)\<close>.\<close>

function readmap_rows :: "u16 list \<Rightarrow> int \<Rightarrow> int \<Rightarrow> u8 list list \<Rightarrow> int \<Rightarrow> u16 list option" where
  "readmap_rows m w h rows i =
     (if i < h then
        (case load_at rows i of
           None \<Rightarrow> None
         | Some r \<Rightarrow>
            (case readmap_row m w r i 0 of
               None \<Rightarrow> None
             | Some m1 \<Rightarrow>
                (case store_at m1 ((i + 1) * w) 65535 of
                   None \<Rightarrow> None
                 | Some m2 \<Rightarrow> readmap_rows m2 w h rows (i + 1))))
      else Some m)"
  by pat_completeness auto
termination
  by (relation "measure (\<lambda>(m, w, h, rows, i). nat (h - i))") auto

declare readmap_rows.simps [simp del]

text \<open>
  \<open>readmap\<close>: the result is the returned \<open>int\<close> and the state.  Each of the five
  failures returns -1.  There is no comparison of the image's dimensions with the grid
  anywhere in it.
\<close>

definition readmap :: "mapfile \<Rightarrow> world \<Rightarrow> (int \<times> world) option" where
  "readmap mf s =
     (case mf of
        Unreadable \<Rightarrow> Some (-1, s)
      | BadSignature \<Rightarrow> Some (-1, s)
      | NoReadStruct \<Rightarrow> Some (-1, s)
      | NoInfoStruct \<Rightarrow> Some (-1, s)
      | NoEndInfoStruct \<Rightarrow> Some (-1, s)
      | Png rows \<Rightarrow>
         (case readmap_rows (mapc s) (width s) (height s) rows 0 of
            None \<Rightarrow> None
          | Some m \<Rightarrow> Some (0, s\<lparr>mapc := m\<rparr>)))"

text \<open>The loops of \<open>initmotion\<close> that fill a uniform map.\<close>

function initmotion_row :: "u16 list \<Rightarrow> int \<Rightarrow> int \<Rightarrow> int \<Rightarrow> int \<Rightarrow> u16 list option" where
  "initmotion_row m cols sens y x =
     (if x < cols - 1 then
        (case store_at m (y * cols + x) (word_of_int sens) of
           None \<Rightarrow> None
         | Some m' \<Rightarrow> initmotion_row m' cols sens y (x + 1))
      else Some m)"
  by pat_completeness auto
termination
  by (relation "measure (\<lambda>(m, cols, sens, y, x). nat (cols - 1 - x))") auto

declare initmotion_row.simps [simp del]

function initmotion_rows :: "u16 list \<Rightarrow> int \<Rightarrow> int \<Rightarrow> int \<Rightarrow> int \<Rightarrow> u16 list option" where
  "initmotion_rows m rows cols sens y =
     (if y < rows then
        (case initmotion_row m cols sens y 0 of
           None \<Rightarrow> None
         | Some m1 \<Rightarrow>
            (case store_at m1 (y * cols + cols) 65535 of
               None \<Rightarrow> None
             | Some m2 \<Rightarrow> initmotion_rows m2 rows cols sens (y + 1)))
      else Some m)"
  by pat_completeness auto
termination
  by (relation "measure (\<lambda>(m, rows, cols, sens, y). nat (rows - y))") auto

declare initmotion_rows.simps [simp del]

text \<open>
  \<open>initmotion\<close>, called once in a fresh process (the statics of \<open>ma_filter\<close> and of
  \<open>dumppng\<close> hold their initialisers).  \<open>junk\<close> is the indeterminate content of the
  block \<open>malloc\<close> returns for the map, \<open>mapf\<close> is \<open>None\<close> for a null \<open>map\<close> argument
  and otherwise what the named file holds.  \<open>calloc\<close> gives \<open>window_size\<close> zeroed slots
  (none for a non-positive count).  The result is the returned \<open>int\<close> and the state.
\<close>

definition initmotion ::
  "(nat \<Rightarrow> u16) \<Rightarrow> int \<Rightarrow> int \<Rightarrow> mapfile option \<Rightarrow> int \<Rightarrow> int \<Rightarrow> int \<Rightarrow> (int \<times> world) option" where
  "initmotion junk pwidth pheight mapf sens thresh wsize =
     (let rows = cdiv (pheight + 15) 16;
          cols = cdiv (pwidth + 15) 16 + 1;
          s = \<lparr>width = cols, height = rows,
               mapc = map junk [0 ..< nat ((cols + 1) * rows)],
               vectors = None, threshold = thresh, detectionthread = False,
               flags = 2, window_size = wsize,
               filter_window = replicate (nat wsize) 0,
               ma_i = 0, ma_sum = 0, events = [], heap = [], brk = 0, freed = [], fnum = 0\<rparr>
      in case mapf of
           Some mf \<Rightarrow>
             (case readmap mf s of
                None \<Rightarrow> None
              | Some (r, s1) \<Rightarrow>
                 if r \<noteq> 0 then Some (-1, s1)
                 else Some (0, s1\<lparr>detectionthread := True\<rparr>))
         | None \<Rightarrow>
             (let sens1 = sens * sens;
                  sens2 = (if sens1 > 65535 then 65535 else sens1)
              in case initmotion_rows (mapc s) rows cols sens2 0 of
                   None \<Rightarrow> None
                 | Some m \<Rightarrow> Some (0, s\<lparr>mapc := m, detectionthread := True\<rparr>)))"

section \<open>The noise filter\<close>

text \<open>The loop of \<open>ma_filter\<close> that adds up the twelve most recent samples.\<close>

function ma_head :: "int list \<Rightarrow> int \<Rightarrow> int \<Rightarrow> int \<Rightarrow> int \<Rightarrow> int option" where
  "ma_head fw ws i j head_avg =
     (if j < 12 then
        (let k = i - j;
             k1 = (if k < 0 then ws + i - j else k)
         in case load_at fw k1 of
              None \<Rightarrow> None
            | Some x \<Rightarrow> ma_head fw ws i (j + 1) (head_avg + x))
      else Some head_avg)"
  by pat_completeness auto
termination
  by (relation "measure (\<lambda>(fw, ws, i, j, head_avg). nat (12 - j))") auto

declare ma_head.simps [simp del]

text \<open>
  \<open>ma_filter\<close>.  The result is the returned value, the local \<open>nf\<close> (the noise floor,
  which the function prints) and the state.
\<close>

definition ma_filter :: "world \<Rightarrow> int \<Rightarrow> (int \<times> int \<times> world) option" where
  "ma_filter s t =
     (let i = ma_i s;
          nmblk = width s * height s;
          t1 = (if t > cdiv nmblk 4 then threshold s else t);
          n1 = (if t1 > threshold s * 4 then threshold s * 4 else t1);
          sum1 = ma_sum s + n1
      in case load_at (filter_window s) i of
           None \<Rightarrow> None
         | Some n \<Rightarrow>
            (let n2 = (if n > threshold s * 4 then threshold s * 4 else n);
                 sum2 = sum1 - n2
             in if window_size s = 0 then None
                else
                  (let nf = cdiv sum2 (window_size s)
                   in case store_at (filter_window s) i t1 of
                        None \<Rightarrow> None
                      | Some fw \<Rightarrow>
                         (case ma_head fw (window_size s) i 0 0 of
                            None \<Rightarrow> None
                          | Some head_avg \<Rightarrow>
                             (let t2 = cdiv head_avg 12;
                                  i1 = i + 1;
                                  i2 = (if i1 \<ge> window_size s then 0 else i1);
                                  t3 = (if t2 > nf then t2 - nf else 0)
                              in Some (t3, nf,
                                   s\<lparr>filter_window := fw, ma_i := i2, ma_sum := sum2\<rparr>))))))"

section \<open>The detector\<close>

text \<open>The counting loop of \<open>lookformotion\<close>: \<open>for (i = t = 0; i < n; i++)\<close>.\<close>

function lookformotion_loop :: "u16 list \<Rightarrow> motvec list \<Rightarrow> int \<Rightarrow> int \<Rightarrow> int \<Rightarrow> int option" where
  "lookformotion_loop m v n i t =
     (if i < n then
        (case load_at m i of
           None \<Rightarrow> None
         | Some c \<Rightarrow>
            (case load_at v i of
               None \<Rightarrow> None
             | Some mv \<Rightarrow>
                lookformotion_loop m v n (i + 1)
                  (if uint c < sint (dx mv) * sint (dx mv) + sint (dy mv) * sint (dy mv)
                   then t + 1 else t)))
      else Some t)"
  by pat_completeness auto
termination
  by (relation "measure (\<lambda>(m, v, n, i, t). nat (n - i))") auto

declare lookformotion_loop.simps [simp del]

text \<open>
  The loops of \<open>dumppng\<close> that render the frame: \<open>for (j = 0; j < mctx.width; j++)\<close>
  inside \<open>for (i = 0; i < mctx.height; i++)\<close>, reading \<open>v[(i * mctx.width) + j]\<close>.  The
  byte stored for each vector (the square root of \<open>dx * dx + dy * dy\<close>, at most 181)
  and the row buffers that hold the image (allocated at the first call, one byte per
  column, and written inside their bounds) are outside the model: the loops are kept
  for their reads.
\<close>

function dumppng_row :: "motvec list \<Rightarrow> int \<Rightarrow> int \<Rightarrow> int \<Rightarrow> unit option" where
  "dumppng_row v w i j =
     (if j < w then
        (case load_at v (i * w + j) of
           None \<Rightarrow> None
         | Some tv \<Rightarrow> dumppng_row v w i (j + 1))
      else Some ())"
  by pat_completeness auto
termination
  by (relation "measure (\<lambda>(v, w, i, j). nat (w - j))") auto

declare dumppng_row.simps [simp del]

function dumppng_rows :: "motvec list \<Rightarrow> int \<Rightarrow> int \<Rightarrow> int \<Rightarrow> unit option" where
  "dumppng_rows v w h i =
     (if i < h then
        (case dumppng_row v w i 0 of
           None \<Rightarrow> None
         | Some u \<Rightarrow> dumppng_rows v w h (i + 1))
      else Some ())"
  by pat_completeness auto
termination
  by (relation "measure (\<lambda>(v, w, h, i). nat (h - i))") auto

declare dumppng_rows.simps [simp del]

text \<open>
  \<open>dumppng\<close>.  After the loops the image goes to libpng with
  \<open>png_set_IHDR(png, info, mctx.width-1, mctx.height, ...)\<close>.  libpng rejects a width or
  a height that is zero (or negative, which it reads as an unsigned number above its
  limit) and calls its error handler; \<open>dumppng\<close> installs none (there is no \<open>setjmp\<close>),
  so the handler ends the process.  Otherwise the file is written and \<open>fnum\<close> is
  incremented.  That the file can be opened and written, and that the dimensions stay
  below the ceiling libpng is configured with, is taken for granted, as is the success
  of \<open>malloc\<close> everywhere.
\<close>

definition dumppng :: "motvec list \<Rightarrow> world \<Rightarrow> world option" where
  "dumppng v s =
     (case dumppng_rows v (width s) (height s) 0 of
        None \<Rightarrow> None
      | Some u \<Rightarrow>
         if 1 \<le> width s - 1 \<and> 1 \<le> height s then Some (s\<lparr>fnum := fnum s + 1\<rparr>)
         else None)"

text \<open>
  \<open>lookformotion\<close> on the array \<open>v\<close> points to (a null pointer is the empty array: every
  read through it is undefined).  \<open>initmotion\<close> sets \<open>mctx.pngfn\<close> and nothing clears
  it, so the test \<open>if (mctx.pngfn)\<close> succeeds and \<open>dumppng\<close> is called on every frame,
  between the counting loop and \<open>ma_filter\<close>.
\<close>

definition lookformotion :: "motvec list \<Rightarrow> world \<Rightarrow> world option" where
  "lookformotion v s =
     (let n = width s * height s
      in case lookformotion_loop (mapc s) v n 0 0 of
           None \<Rightarrow> None
         | Some t \<Rightarrow>
            (case dumppng v s of
               None \<Rightarrow> None
             | Some s0 \<Rightarrow>
                (case ma_filter s0 t of
                   None \<Rightarrow> None
                 | Some (ft, nf, s1) \<Rightarrow>
                    if ft \<ge> threshold s1
                    then Some (s1\<lparr>events := events s1 @ [(ft, movement)]\<rparr>)
                    else Some s1)))"

section \<open>The frame handoff\<close>

text \<open>\<open>av_free\<close>: freeing a null pointer does nothing.\<close>

definition av_free :: "nat option \<Rightarrow> world \<Rightarrow> world" where
  "av_free p s =
     (case p of
        None \<Rightarrow> s
      | Some a \<Rightarrow> s\<lparr>heap := filter (\<lambda>(b, buf). b \<noteq> a) (heap s), freed := freed s @ [a]\<rparr>)"

text \<open>
  \<open>findmotion\<close>: the frame \<open>out\<close> is copied into a fresh buffer; what follows runs with
  the mutex held and is one step of the model.
\<close>

definition findmotion :: "motvec list \<Rightarrow> world \<Rightarrow> world" where
  "findmotion out s =
     (let tmpbuf = brk s;
          s1 = s\<lparr>heap := (tmpbuf, out) # heap s, brk := brk s + 1\<rparr>;
          s2 = (if vectors s1 \<noteq> None then av_free (vectors s1) s1 else s1)
      in s2\<lparr>vectors := Some tmpbuf\<rparr>)"

text \<open>
  The worker's locked section in \<open>motionstart\<close>, from the return of
  \<open>pthread_cond_wait\<close> to the unlock: \<open>tv = mctx.vectors; mctx.vectors = NULL\<close>.
  When and whether the wait returns is the scheduler's business and is not modelled.
\<close>

definition motionstart_take :: "world \<Rightarrow> nat option \<times> world" where
  "motionstart_take s = (vectors s, s\<lparr>vectors := None\<rparr>)"

text \<open>One turn of the worker's loop once it has been woken.\<close>

definition motionstart_turn :: "world \<Rightarrow> world option" where
  "motionstart_turn s =
     (case motionstart_take s of
        (tv, s1) \<Rightarrow>
          (let v = (case tv of
                      None \<Rightarrow> []
                    | Some a \<Rightarrow> (case map_of (heap s1) a of None \<Rightarrow> [] | Some b \<Rightarrow> b))
           in case lookformotion v s1 of
                None \<Rightarrow> None
              | Some s2 \<Rightarrow> Some (av_free tv s2)))"

section \<open>Sequences of calls\<close>

text \<open>
  \<open>ma_filter\<close> called once per element of a list of raw counts, in order: the pairs of
  returned value and noise floor of all calls, and the final state.
\<close>

fun ma_filter_seq :: "world \<Rightarrow> int list \<Rightarrow> ((int \<times> int) list \<times> world) option" where
  "ma_filter_seq s [] = Some ([], s)"
| "ma_filter_seq s (t # ts) =
     (case ma_filter s t of
        None \<Rightarrow> None
      | Some (ft, nf, s1) \<Rightarrow>
         (case ma_filter_seq s1 ts of
            None \<Rightarrow> None
          | Some (outs, s2) \<Rightarrow> Some ((ft, nf) # outs, s2)))"


section \<open>The specification's wording\<close>

text \<open>
  The state of the filter is well formed when the ring has \<open>window_size\<close> slots, at
  least twelve, and the cursor points into it.
\<close>

definition filter_wf :: "world \<Rightarrow> bool" where
  "filter_wf s \<longleftrightarrow>
     12 \<le> window_size s \<and> length (filter_window s) = nat (window_size s) \<and>
     0 \<le> ma_i s \<and> ma_i s < window_size s"

text \<open>
  NoiseFilter.observe as the specification describes it, step by step: the clamped
  count, the running sum, the noise floor, the ring after the insertion, the trend (the
  integer average of the twelve most recent samples, backwards from the cursor and
  wrapping around), the output.
\<close>

definition observe_clamp :: "world \<Rightarrow> int \<Rightarrow> int" where
  "observe_clamp s raw = (if cdiv (width s * height s) 4 < raw then threshold s else raw)"

definition observe_sum :: "world \<Rightarrow> int \<Rightarrow> int" where
  "observe_sum s raw =
     ma_sum s + min (observe_clamp s raw) (4 * threshold s)
       - min (filter_window s ! nat (ma_i s)) (4 * threshold s)"

definition observe_nf :: "world \<Rightarrow> int \<Rightarrow> int" where
  "observe_nf s raw = cdiv (observe_sum s raw) (window_size s)"

definition observe_ring :: "world \<Rightarrow> int \<Rightarrow> int list" where
  "observe_ring s raw = (filter_window s)[nat (ma_i s) := observe_clamp s raw]"

definition observe_trend :: "world \<Rightarrow> int \<Rightarrow> int" where
  "observe_trend s raw =
     cdiv (\<Sum>j = 0 ..< 12. observe_ring s raw ! nat ((ma_i s - int j) mod window_size s)) 12"

definition observe :: "world \<Rightarrow> int \<Rightarrow> int \<times> int \<times> world" where
  "observe s raw =
     (max (observe_trend s raw - observe_nf s raw) 0,
      observe_nf s raw,
      s\<lparr>filter_window := observe_ring s raw,
        ma_i := (ma_i s + 1) mod window_size s,
        ma_sum := observe_sum s raw\<rparr>)"

text \<open>The sum over all ring slots of the slot value clamped to four times the threshold.\<close>

definition clamped_total :: "world \<Rightarrow> int" where
  "clamped_total s = sum_list (map (\<lambda>x. min x (4 * threshold s)) (filter_window s))"

text \<open>The invariant of the filter state.\<close>

definition filter_inv :: "world \<Rightarrow> bool" where
  "filter_inv s \<longleftrightarrow> filter_wf s \<and> ma_sum s = clamped_total s"

text \<open>The ring read from the cursor on: the samples from the oldest to the newest.\<close>

definition history :: "world \<Rightarrow> int list" where
  "history s = rotate (nat (ma_i s)) (filter_window s)"

text \<open>The squared magnitude of a vector, and whether it exceeds the cell of the map.\<close>

definition magnitude_sq :: "motvec \<Rightarrow> int" where
  "magnitude_sq mv = sint (dx mv) * sint (dx mv) + sint (dy mv) * sint (dy mv)"

definition exceeds :: "u16 list \<Rightarrow> motvec list \<Rightarrow> nat \<Rightarrow> bool" where
  "exceeds m v i \<longleftrightarrow> uint (m ! i) < magnitude_sq (v ! i)"



text \<open>
  The allocator hands out addresses in increasing order: every address that was freed,
  is live or sits in the mailbox is below \<open>brk\<close>.
\<close>

definition heap_wf :: "world \<Rightarrow> bool" where
  "heap_wf s \<longleftrightarrow>
     list_all (\<lambda>a. a < brk s) (freed s) \<and> list_all (\<lambda>a. a < brk s) (map fst (heap s)) \<and>
     (case vectors s of None \<Rightarrow> True | Some p \<Rightarrow> p < brk s)"

section \<open>Example states\<close>

text \<open>A block from \<open>malloc\<close> that happens to hold zeros, as fresh pages do.\<close>

definition zero_junk :: "nat \<Rightarrow> u16" where
  "zero_junk k = 0"

text \<open>
  The state after \<open>initmotion(16, 32, NULL, 10, 1, 12, cb)\<close>: two columns (one of
  macroblocks and the extra one) and two rows, sensitivity 10, threshold 1, a window of
  twelve samples.
\<close>

definition example_init :: world where
  "example_init =
     \<lparr>width = 2, height = 2, mapc = [100, 0, 100, 0, 65535, 0], vectors = None,
      threshold = 1, detectionthread = True, flags = 2, window_size = 12,
      filter_window = replicate 12 0,
      ma_i = 0, ma_sum = 0, events = [], heap = [], brk = 0, freed = [], fnum = 0\<rparr>"

text \<open>The state after \<open>initmotion(64, 64, NULL, 10, 1, 12, cb)\<close>: five columns, four rows.\<close>

definition example_big :: world where
  "example_big =
     \<lparr>width = 5, height = 4,
      mapc = [100, 100, 100, 100, 0, 100, 100, 100, 100, 0, 100, 100, 100, 100, 0,
              100, 100, 100, 100, 0, 65535, 0, 0, 0],
      vectors = None,
      threshold = 1, detectionthread = True, flags = 2, window_size = 12,
      filter_window = replicate 12 0,
      ma_i = 0, ma_sum = 0, events = [], heap = [], brk = 0, freed = [], fnum = 0\<rparr>"

text \<open>The state after \<open>initmotion(112, 96, NULL, 10, 1, 12, cb)\<close>: eight columns, six rows.\<close>

definition example_wide :: world where
  "example_wide =
     \<lparr>width = 8, height = 6,
      mapc = [100, 100, 100, 100, 100, 100, 100, 0, 100, 100, 100, 100, 100, 100, 100, 0,
              100, 100, 100, 100, 100, 100, 100, 0, 100, 100, 100, 100, 100, 100, 100, 0,
              100, 100, 100, 100, 100, 100, 100, 0, 100, 100, 100, 100, 100, 100, 100, 0,
              65535, 0, 0, 0, 0, 0],
      vectors = None,
      threshold = 1, detectionthread = True, flags = 2, window_size = 12,
      filter_window = replicate 12 0,
      ma_i = 0, ma_sum = 0, events = [], heap = [], brk = 0, freed = [], fnum = 0\<rparr>"

text \<open>The state after \<open>initmotion(16, 0, NULL, 10, 0, 12, cb)\<close>: no rows, threshold 0.\<close>

definition example_empty :: world where
  "example_empty =
     \<lparr>width = 2, height = 0, mapc = [], vectors = None, threshold = 0,
      detectionthread = True, flags = 2, window_size = 12,
      filter_window = replicate 12 0,
      ma_i = 0, ma_sum = 0, events = [], heap = [], brk = 0, freed = [], fnum = 0\<rparr>"

text \<open>Frames of four vectors: nothing moves; one vector (10,0); one vector (11,0).\<close>

definition quiet_frame :: "motvec list" where
  "quiet_frame = replicate 4 \<lparr>dx = 0, dy = 0, sad = 0\<rparr>"

definition still_frame :: "motvec list" where
  "still_frame = \<lparr>dx = 10, dy = 0, sad = 0\<rparr> # replicate 3 \<lparr>dx = 0, dy = 0, sad = 0\<rparr>"

definition spike_frame :: "motvec list" where
  "spike_frame = \<lparr>dx = 11, dy = 0, sad = 0\<rparr> # replicate 3 \<lparr>dx = 0, dy = 0, sad = 0\<rparr>"



text \<open>A frame of four vectors whose last one, in the extra column of the second row, is (11,0).\<close>

definition edge_frame :: "motvec list" where
  "edge_frame = replicate 3 \<lparr>dx = 0, dy = 0, sad = 0\<rparr> @ [\<lparr>dx = 11, dy = 0, sad = 0\<rparr>]"

text \<open>A decoded image of three rows of three pixels.\<close>

definition image3x3 :: "u8 list list" where
  "image3x3 = [[1, 2, 3], [4, 5, 6], [7, 8, 9]]"

section \<open>The example states are what \<open>initmotion\<close> returns\<close>

lemma example_states_reachable:
  "initmotion zero_junk 16 32 None 10 1 12 = Some (0, example_init)"
  "initmotion zero_junk 64 64 None 10 1 12 = Some (0, example_big)"
  "initmotion zero_junk 112 96 None 10 1 12 = Some (0, example_wide)"
  "initmotion zero_junk 16 0 None 10 0 12 = Some (0, example_empty)"
  by code_simp+

section \<open>Arithmetic and array lemmas\<close>

lemma cdiv_nonneg: "0 \<le> a \<Longrightarrow> 0 < b \<Longrightarrow> cdiv a b = a div b"
  by (cases "a = 0") (simp_all add: cdiv_def)

lemma cdiv_zero [simp]: "cdiv 0 b = 0"
  by (simp add: cdiv_def)


lemma wrap_index:
  "0 \<le> i \<Longrightarrow> i < ws \<Longrightarrow> 0 \<le> j \<Longrightarrow> j < ws \<Longrightarrow>
     (if i - j < 0 then ws + i - j else i - j) = (i - j) mod (ws::int)"
proof (cases "i - j < 0")
  case True
  assume a: "0 \<le> i" "i < ws" "0 \<le> j" "j < ws"
  have "(i - j) mod ws = (i - j + ws) mod ws" by simp
  also have "\<dots> = i - j + ws" using a True by (intro mod_pos_pos_trivial) auto
  finally show ?thesis using True by simp
next
  case False
  assume a: "0 \<le> i" "i < ws" "0 \<le> j" "j < ws"
  then have "(i - j) mod ws = i - j" using False by (intro mod_pos_pos_trivial) auto
  then show ?thesis using False by simp
qed

lemma rotate_update_step:
  assumes "i < length xs"
  shows "rotate (Suc i mod length xs) (xs[i := c]) = tl (rotate i xs) @ [c]"
proof -
  have r: "rotate i (xs[i := c]) = (c # drop (Suc i) xs) @ take i xs"
    using assms by (simp add: rotate_drop_take drop_update_cancel upd_conv_take_nth_drop)
  have "rotate (Suc i mod length xs) (xs[i := c]) = rotate (Suc i) (xs[i := c])"
    using rotate_conv_mod [of "Suc i" "xs[i := c]"] by simp
  also have "\<dots> = rotate1 (rotate i (xs[i := c]))" by simp
  also have "\<dots> = drop (Suc i) xs @ take i xs @ [c]" unfolding r by simp
  finally have lhs: "rotate (Suc i mod length xs) (xs[i := c]) = drop (Suc i) xs @ take i xs @ [c]" .
  have "rotate i xs = (xs ! i # drop (Suc i) xs) @ take i xs"
    using assms by (simp add: rotate_drop_take Cons_nth_drop_Suc)
  then have "tl (rotate i xs) = drop (Suc i) xs @ take i xs" by simp
  with lhs show ?thesis by simp
qed

lemma sum_list_map_rotate: "sum_list (map f (rotate n xs)) = sum_list (map (f::'a \<Rightarrow> int) xs)"
proof -
  have "sum_list (map f (rotate n xs)) =
      sum_list (map f (take (n mod length xs) xs)) + sum_list (map f (drop (n mod length xs) xs))"
    by (simp add: rotate_drop_take)
  also have "\<dots> = sum_list (map f (take (n mod length xs) xs @ drop (n mod length xs) xs))"
    by (simp del: append_take_drop_id)
  finally show ?thesis by simp
qed




lemma row_bound:
  fixes y cols rows :: int
  assumes "0 \<le> y" "y < rows" "0 \<le> cols"
  shows "0 \<le> y * cols" and "y * cols + cols \<le> rows * cols" and "y * cols + cols < (cols + 1) * rows"
proof -
  show "0 \<le> y * cols" using assms by simp
  have "(y + 1) * cols \<le> rows * cols"
    using assms by (intro mult_right_mono) auto
  then show le: "y * cols + cols \<le> rows * cols" by (simp add: algebra_simps)
  have "(cols + 1) * rows = rows * cols + rows" by (simp add: algebra_simps)
  then show "y * cols + cols < (cols + 1) * rows" using le assms by simp
qed

section \<open>The noise filter computes what the specification describes\<close>

text \<open>The summation loop reads the twelve slots backwards from the cursor, wrapping.\<close>

lemma ma_head_sum:
  "12 \<le> ws \<Longrightarrow> 0 \<le> i \<Longrightarrow> i < ws \<Longrightarrow> length fw = nat ws \<Longrightarrow> 0 \<le> j \<Longrightarrow> j \<le> 12 \<Longrightarrow>
    ma_head fw ws i j acc = Some (acc + (\<Sum>k = nat j..<12. fw ! nat ((i - int k) mod ws)))"
proof (induction fw ws i j acc rule: ma_head.induct)
  case (1 fw ws i j acc)
  show ?case
  proof (cases "j < 12")
    case False
    with 1(7) have "j = 12" by simp
    then show ?thesis by (subst ma_head.simps) simp
  next
    case True
    let ?k = "(i - j) mod ws"
    have k: "(if i - j < 0 then ws + i - j else i - j) = ?k"
      using wrap_index [of i ws j] 1 True by simp
    have kr: "0 \<le> ?k" "?k < ws" using 1(2) by simp_all
    have ld: "load_at fw ?k = Some (fw ! nat ?k)"
      using kr 1(5) by (simp add: load_at_def)
    have ih: "ma_head fw ws i (j + 1) (acc + fw ! nat ?k) =
        Some (acc + fw ! nat ?k + (\<Sum>k = nat (j + 1)..<12. fw ! nat ((i - int k) mod ws)))"
      using 1(1) [OF True refl k [symmetric] ld] 1(2-6) True
      by simp
    have nj: "nat (j + 1) = Suc (nat j)" "nat j < 12" "int (nat j) = j"
      using 1(6) True by auto
    have split: "(\<Sum>k = nat j..<12. fw ! nat ((i - int k) mod ws)) =
        fw ! nat ?k + (\<Sum>k = Suc (nat j)..<12. fw ! nat ((i - int k) mod ws))"
      using nj by (simp add: sum.atLeast_Suc_lessThan)
    have unf: "ma_head fw ws i j acc = ma_head fw ws i (j + 1) (acc + fw ! nat ?k)"
      by (subst ma_head.simps) (simp only: True if_True Let_def k ld option.simps)
    show ?thesis
      unfolding unf ih split nj(1) by simp
  qed
qed

lemma ma_filter_observe:
  assumes wf: "filter_wf s"
  shows "ma_filter s raw = Some (observe s raw)"
proof -
  let ?ws = "window_size s" and ?i = "ma_i s" and ?fw = "filter_window s"
  from wf have ws: "12 \<le> ?ws" and len: "length ?fw = nat ?ws" and i0: "0 \<le> ?i" and i1: "?i < ?ws"
    by (simp_all add: filter_wf_def)
  have ld: "load_at ?fw ?i = Some (?fw ! nat ?i)"
    using len i0 i1 by (simp add: load_at_def)
  have st: "store_at ?fw ?i (observe_clamp s raw) = Some (observe_ring s raw)"
    using len i0 i1 by (simp add: store_at_def observe_ring_def)
  have lr: "length (observe_ring s raw) = nat ?ws"
    using len by (simp add: observe_ring_def)
  have hd: "ma_head (observe_ring s raw) ?ws ?i 0 0 =
      Some (\<Sum>j = 0 ..< 12. observe_ring s raw ! nat ((?i - int j) mod ?ws))"
    using ma_head_sum [OF ws i0 i1 lr, of 0 0] by simp
  have cur: "(if ?i + 1 \<ge> ?ws then 0 else ?i + 1) = (?i + 1) mod ?ws"
  proof (cases "?i + 1 = ?ws")
    case True
    then show ?thesis by simp
  next
    case False
    then show ?thesis using i0 i1 by (simp add: mod_pos_pos_trivial)
  qed
  have c: "(if raw > cdiv (width s * height s) 4 then threshold s else raw) = observe_clamp s raw"
    by (simp add: observe_clamp_def)
  have mn: "\<And>x. (if x > threshold s * 4 then threshold s * 4 else x) = min x (4 * threshold s)"
    by (simp add: min_def mult.commute)
  have mx: "\<And>a b::int. (if a > b then a - b else 0) = max (a - b) 0"
    by (simp add: max_def)
  show ?thesis
    unfolding ma_filter_def Let_def c mn ld option.case st hd cur mx
    using ws by (simp add: observe_def observe_trend_def observe_nf_def observe_sum_def)
qed



section \<open>The ring is a queue\<close>

lemma observe_frame [simp]:
  "width (snd (snd (observe s raw))) = width s"
  "height (snd (snd (observe s raw))) = height s"
  "threshold (snd (snd (observe s raw))) = threshold s"
  "window_size (snd (snd (observe s raw))) = window_size s"
  "mapc (snd (snd (observe s raw))) = mapc s"
  "events (snd (snd (observe s raw))) = events s"
  "filter_window (snd (snd (observe s raw))) = observe_ring s raw"
  "ma_i (snd (snd (observe s raw))) = (ma_i s + 1) mod window_size s"
  "ma_sum (snd (snd (observe s raw))) = observe_sum s raw"
  "fst (observe s raw) = max (observe_trend s raw - observe_nf s raw) 0"
  "fst (snd (observe s raw)) = observe_nf s raw"
  by (simp_all add: observe_def)

lemma observe_wf:
  assumes "filter_wf s"
  shows "filter_wf (snd (snd (observe s raw)))"
  using assms by (simp add: filter_wf_def observe_ring_def)


lemma history_hd:
  assumes "filter_wf s"
  shows "hd (history s) = filter_window s ! nat (ma_i s)"
proof -
  from assms have ne: "filter_window s \<noteq> []" and lt: "nat (ma_i s) < length (filter_window s)"
    by (auto simp: filter_wf_def)
  show ?thesis
    unfolding history_def using hd_rotate_conv_nth [OF ne, of "nat (ma_i s)"] lt by simp
qed

lemma observe_history:
  assumes wf: "filter_wf s"
  shows "history (snd (snd (observe s raw))) = tl (history s) @ [observe_clamp s raw]"
proof -
  let ?fw = "filter_window s" and ?i = "nat (ma_i s)"
  from wf have len: "length ?fw = nat (window_size s)" and i0: "0 \<le> ma_i s"
    and i1: "ma_i s < window_size s" and ws: "12 \<le> window_size s"
    by (simp_all add: filter_wf_def)
  have lt: "?i < length ?fw" using len i0 i1 by simp
  have cur: "nat ((ma_i s + 1) mod window_size s) = Suc ?i mod length ?fw"
    using i0 ws len by (simp add: nat_mod_distrib nat_add_distrib)
  show ?thesis
    unfolding history_def observe_frame observe_ring_def cur
    by (rule rotate_update_step [OF lt])
qed


lemma clamped_total_history:
  "clamped_total s = sum_list (map (\<lambda>x. min x (4 * threshold s)) (history s))"
  by (simp add: clamped_total_def history_def sum_list_map_rotate)

lemma observe_inv:
  assumes inv: "filter_inv s"
  shows "filter_inv (snd (snd (observe s raw)))"
proof -
  let ?s' = "snd (snd (observe s raw))" and ?f = "\<lambda>x. min x (4 * threshold s)"
  from inv have wf: "filter_wf s" and sm: "ma_sum s = clamped_total s"
    by (simp_all add: filter_inv_def)
  have ne: "history s \<noteq> []"
    using wf by (auto simp: history_def filter_wf_def)
  then have hs: "history s = hd (history s) # tl (history s)" by simp
  have "clamped_total s = ?f (hd (history s)) + sum_list (map ?f (tl (history s)))"
    unfolding clamped_total_history by (subst hs) simp
  moreover have "clamped_total ?s' = sum_list (map ?f (tl (history s))) + ?f (observe_clamp s raw)"
    unfolding clamped_total_history observe_history [OF wf] by simp
  ultimately have "ma_sum ?s' = clamped_total ?s'"
    using sm by (simp add: observe_sum_def history_hd [OF wf])
  then show ?thesis
    using observe_wf [OF wf] by (simp add: filter_inv_def)
qed

lemma observe_nf_inv:
  assumes "filter_inv s"
  shows "observe_nf s raw = cdiv (clamped_total (snd (snd (observe s raw)))) (window_size s)"
  using observe_inv [OF assms, of raw] by (simp add: filter_inv_def observe_nf_def)

section \<open>The invariant of the filter state\<close>



lemma initmotion_filter:
  assumes "initmotion junk pw ph mapf sens thresh wsize = Some (r, s0)"
  shows "filter_window s0 = replicate (nat wsize) 0 \<and> ma_i s0 = 0 \<and> ma_sum s0 = 0 \<and>
         threshold s0 = thresh \<and> window_size s0 = wsize \<and> events s0 = []"
  using assms unfolding initmotion_def Let_def readmap_def
  by (auto split: option.splits mapfile.splits if_splits prod.splits)

lemma initmotion_inv:
  assumes "initmotion junk pw ph mapf sens thresh wsize = Some (r, s0)" "12 \<le> wsize" "0 \<le> thresh"
  shows "filter_inv s0"
proof -
  note f = initmotion_filter [OF assms(1)]
  have "clamped_total s0 = 0"
    using f assms(3) by (simp add: clamped_total_def sum_list_replicate)
  then show ?thesis
    using f assms(2) by (simp add: filter_inv_def filter_wf_def)
qed

lemma seq_inv:
  "filter_inv s \<Longrightarrow>
   \<exists>outs s'. ma_filter_seq s ts = Some (outs, s') \<and> filter_inv s' \<and> length outs = length ts \<and>
     threshold s' = threshold s \<and> window_size s' = window_size s \<and>
     width s' = width s \<and> height s' = height s \<and>
     (ts \<noteq> [] \<longrightarrow> snd (last outs) = cdiv (clamped_total s') (window_size s'))"
proof (induction ts arbitrary: s)
  case Nil
  then show ?case by simp
next
  case (Cons t ts)
  let ?s1 = "snd (snd (observe s t))"
  from Cons.prems have wf: "filter_wf s" by (simp add: filter_inv_def)
  have inv1: "filter_inv ?s1" by (rule observe_inv [OF Cons.prems])
  from Cons.IH [OF inv1] obtain outs s' where
    r: "ma_filter_seq ?s1 ts = Some (outs, s')" and i: "filter_inv s'" and l: "length outs = length ts"
    and th: "threshold s' = threshold ?s1" and w: "window_size s' = window_size ?s1"
    and wh: "width s' = width ?s1" "height s' = height ?s1"
    and nf: "ts \<noteq> [] \<longrightarrow> snd (last outs) = cdiv (clamped_total s') (window_size s')"
    by blast
  have run: "ma_filter_seq s (t # ts) = Some ((fst (observe s t), observe_nf s t) # outs, s')"
    using r by (simp add: ma_filter_observe [OF wf] observe_def)
  have last: "snd (last ((fst (observe s t), observe_nf s t) # outs)) = cdiv (clamped_total s') (window_size s')"
  proof (cases "ts = []")
    case True
    with r l have "s' = ?s1" "outs = []" by simp_all
    then show ?thesis using observe_nf_inv [OF Cons.prems, of t] by simp
  next
    case False
    with l have "outs \<noteq> []" by auto
    then show ?thesis using nf False by simp
  qed
  show ?case
    using run i l th w wh last by simp
qed

text \<open>
  C10, as stated, fails for a negative threshold: \<open>initmotion\<close> accepts any \<open>int\<close>, and
  with threshold -1 the zeroed ring has a clamped total of 12 * (-4) = -48 while the running
  sum is 0, before and after a call; the noise floor printed by the call is 0, not the
  integer average -4 of the clamped ring.
\<close>

theorem C10_negative_threshold_counterexample:
  "initmotion zero_junk 16 32 None 10 (- 1) 12 = Some (0, example_init\<lparr>threshold := - 1\<rparr>) \<and>
   ma_filter_seq (example_init\<lparr>threshold := - 1\<rparr>) [0] =
     Some ([(0, 0)], example_init\<lparr>threshold := - 1, ma_i := 1\<rparr>) \<and>
   ma_sum (example_init\<lparr>threshold := - 1, ma_i := 1\<rparr>) = 0 \<and>
   clamped_total (example_init\<lparr>threshold := - 1, ma_i := 1\<rparr>) = - 48 \<and>
   cdiv (clamped_total (example_init\<lparr>threshold := - 1, ma_i := 1\<rparr>)) 12 = - 4"
  by code_simp

text \<open>
  C10, amended.  For a threshold that is not negative and a window of at least twelve
  samples, after every sequence of calls of \<open>ma_filter\<close> that follows \<open>initmotion\<close>
  (called once in the process, so that the statics of \<open>ma_filter\<close> hold their
  initialisers) each call has returned, the running sum equals the sum over all ring slots of the slot
  value cut at four times the threshold, the cursor lies in \<open>[0, window_size)\<close>, and the
  noise floor of the last call is the integer average of the clamped ring contents.
\<close>

theorem C10_filter_invariant:
  assumes "initmotion junk pw ph mapf sens thresh wsize = Some (r, s0)"
    and "12 \<le> wsize" and "0 \<le> thresh"
  shows "\<exists>outs s. ma_filter_seq s0 ts = Some (outs, s) \<and>
     ma_sum s = sum_list (map (\<lambda>x. min x (4 * thresh)) (filter_window s)) \<and>
     0 \<le> ma_i s \<and> ma_i s < wsize \<and> length (filter_window s) = nat wsize \<and>
     (ts \<noteq> [] \<longrightarrow>
        snd (last outs) = cdiv (sum_list (map (\<lambda>x. min x (4 * thresh)) (filter_window s))) wsize)"
proof -
  note f = initmotion_filter [OF assms(1)]
  from seq_inv [OF initmotion_inv [OF assms], of ts] obtain outs s where
    r: "ma_filter_seq s0 ts = Some (outs, s)" and i: "filter_inv s"
    and th: "threshold s = threshold s0" and w: "window_size s = window_size s0"
    and nf: "ts \<noteq> [] \<longrightarrow> snd (last outs) = cdiv (clamped_total s) (window_size s)"
    by blast
  show ?thesis
    using r i th w nf f by (auto simp: filter_inv_def filter_wf_def clamped_total_def)
qed

theorem C10_filter_invariant_witness:
  "initmotion zero_junk 16 32 None 10 1 12 = Some (0, example_init) \<and>
   (12::int) \<le> 12 \<and> (0::int) \<le> 1 \<and>
   (\<exists>outs s. ma_filter_seq example_init [7, 0, 30] = Some (outs, s) \<and>
     ma_sum s = sum_list (map (\<lambda>x. min x (4 * 1)) (filter_window s)) \<and>
     0 \<le> ma_i s \<and> ma_i s < 12 \<and> length (filter_window s) = nat 12 \<and>
     snd (last outs) = cdiv (sum_list (map (\<lambda>x. min x (4 * 1)) (filter_window s))) 12)"
proof -
  have i: "initmotion zero_junk 16 32 None 10 1 12 = Some (0, example_init)"
    by code_simp
  from C10_filter_invariant [OF i, of "[7, 0, 30]"] show ?thesis
    using i by simp
qed

section \<open>A constant raw count\<close>







section \<open>A spike on a quiet history\<close>




















section \<open>The counting loop\<close>

lemma loop_count:
  "0 \<le> i \<Longrightarrow> n \<le> int (length m) \<Longrightarrow> n \<le> int (length v) \<Longrightarrow>
   lookformotion_loop m v n i t =
     Some (t + int (length (filter (exceeds m v) [nat i ..< nat n])))"
proof (induction m v n i t rule: lookformotion_loop.induct)
  case (1 m v n i t)
  show ?case
  proof (cases "i < n")
    case False
    then show ?thesis by (subst lookformotion_loop.simps) simp
  next
    case True
    let ?t = "if uint (m ! nat i) < sint (dx (v ! nat i)) * sint (dx (v ! nat i))
                + sint (dy (v ! nat i)) * sint (dy (v ! nat i)) then t + 1 else t"
    have lm: "load_at m i = Some (m ! nat i)" and lv: "load_at v i = Some (v ! nat i)"
      using True 1(2-4) by (simp_all add: load_at_def)
    have ih: "lookformotion_loop m v n (i + 1) ?t =
        Some (?t + int (length (filter (exceeds m v) [nat (i + 1) ..< nat n])))"
      using 1(1) [OF True lm lv] 1(2-4) by simp
    have unf: "lookformotion_loop m v n i t = lookformotion_loop m v n (i + 1) ?t"
      by (subst lookformotion_loop.simps) (simp only: True if_True lm lv option.simps)
    have up: "[nat i ..< nat n] = nat i # [nat (i + 1) ..< nat n]"
      using True 1(2) by (simp add: upt_conv_Cons nat_add_distrib)
    have ex: "exceeds m v (nat i) \<longleftrightarrow>
        uint (m ! nat i) < sint (dx (v ! nat i)) * sint (dx (v ! nat i))
                + sint (dy (v ! nat i)) * sint (dy (v ! nat i))"
      by (simp add: exceeds_def magnitude_sq_def)
    show ?thesis
      unfolding unf ih up by (simp add: ex)
  qed
qed

lemma count_card:
  "length (filter P [0 ..< n]) = card {i. i < n \<and> P i}"
proof -
  have "length (filter P [0 ..< n]) = card {i. i < length [0 ..< n] \<and> P ([0 ..< n] ! i)}"
    by (rule length_filter_conv_card)
  also have "{i. i < length [0 ..< n] \<and> P ([0 ..< n] ! i)} = {i. i < n \<and> P i}"
    by auto
  finally show ?thesis .
qed

lemma initmotion_grid:
  "initmotion junk pw ph mapf sens thresh ws = Some (r, s) \<Longrightarrow>
   width s = cdiv (pw + 15) 16 + 1 \<and> height s = cdiv (ph + 15) 16"
  by (auto simp: initmotion_def readmap_def Let_def
      split: option.splits mapfile.splits if_splits prod.splits)

text \<open>
  C5, as stated, fails.  For a picture of 16 by 32 pixels there is one macroblock column
  and there are two macroblock rows, so the range of the claim is \<open>[0, 2)\<close>; the
  detector stores two columns (the extra one included) and the loop runs over \<open>[0, 4)\<close>.
  A frame whose only non-zero vector is (11,0) at index 3 has no exceedance in the
  range of the claim; the loop counts one (against the cell at index 3, in the extra
  column, which nothing has written), and that count is what the filter stores.
\<close>

theorem C5_extra_column_counterexample:
  "initmotion zero_junk 16 32 None 10 1 12 = Some (0, example_init) \<and>
   cdiv (16 + 15) 16 * cdiv (32 + 15) 16 = 2 \<and>
   width example_init * height example_init = 4 \<and>
   mapc example_init = [100, 0, 100, 0, 65535, 0] \<and>
   lookformotion_loop (mapc example_init) edge_frame (cdiv (16 + 15) 16 * cdiv (32 + 15) 16) 0 0
     = Some 0 \<and>
   lookformotion_loop (mapc example_init) edge_frame (width example_init * height example_init) 0 0
     = Some 1 \<and>
   map_option filter_window (lookformotion edge_frame example_init) = Some (1 # replicate 11 0)"
  by code_simp

text \<open>
  C5, amended.  The detector stores \<open>mctx.width = (pixel_width + 15) / 16 + 1\<close>, the
  macroblock columns and the extra one, and \<open>mctx.height = (pixel_height + 15) / 16\<close>.
  The counting loop of \<open>lookformotion\<close> runs over exactly the indices
  \<open>0 \<le> i < mctx.width * mctx.height\<close>, the entries of the extra column included (the
  map and the frame must hold that many entries), and returns the number of those
  indices at which \<open>dx[i]^2 + dy[i]^2\<close> is strictly greater than \<open>map[i]\<close>; that number
  is what \<open>lookformotion\<close> passes to \<open>ma_filter\<close> once \<open>dumppng\<close> has returned.  In
  particular, against a uniform map of cell value 100, a frame whose only non-zero
  vector is (10,0) gives the count 0, and a frame whose only non-zero vector is (11,0)
  gives the count 1.
\<close>

theorem C5_lookformotion_counts:
  "(\<forall>junk pw ph mapf sens thresh ws r s.
      initmotion junk pw ph mapf sens thresh ws = Some (r, s) \<longrightarrow>
      width s = cdiv (pw + 15) 16 + 1 \<and> height s = cdiv (ph + 15) 16) \<and>
   (\<forall>(s::world) (v::motvec list).
      width s * height s \<le> int (length (mapc s)) \<and> width s * height s \<le> int (length v) \<longrightarrow>
      lookformotion_loop (mapc s) v (width s * height s) 0 0 =
        Some (int (card {i. i < nat (width s * height s) \<and>
                 uint (mapc s ! i) < (sint (dx (v ! i)))\<^sup>2 + (sint (dy (v ! i)))\<^sup>2})) \<and>
      lookformotion v s =
        (case dumppng v s of
           None \<Rightarrow> None
         | Some s0 \<Rightarrow>
            (case ma_filter s0 (int (card {i. i < nat (width s * height s) \<and>
                 uint (mapc s ! i) < (sint (dx (v ! i)))\<^sup>2 + (sint (dy (v ! i)))\<^sup>2})) of
               None \<Rightarrow> None
             | Some (ft, nf, s1) \<Rightarrow>
                 if threshold s1 \<le> ft then Some (s1\<lparr>events := events s1 @ [(ft, movement)]\<rparr>)
                 else Some s1))) \<and>
   lookformotion_loop (replicate 4 100) still_frame 4 0 0 = Some 0 \<and>
   lookformotion_loop (replicate 4 100) spike_frame 4 0 0 = Some 1"
proof (intro conjI allI impI)
  fix junk pw ph mapf sens thresh ws r and s :: world
  assume "initmotion junk pw ph mapf sens thresh ws = Some (r, s)"
  then show "width s = cdiv (pw + 15) 16 + 1" "height s = cdiv (ph + 15) 16"
    by (simp_all add: initmotion_grid)
next
  fix s :: world and v :: "motvec list"
  assume a: "width s * height s \<le> int (length (mapc s)) \<and> width s * height s \<le> int (length v)"
  let ?n = "width s * height s"
  let ?c = "int (card {i. i < nat ?n \<and>
                 uint (mapc s ! i) < (sint (dx (v ! i)))\<^sup>2 + (sint (dy (v ! i)))\<^sup>2})"
  have e: "exceeds (mapc s) v = (\<lambda>i. uint (mapc s ! i) < (sint (dx (v ! i)))\<^sup>2 + (sint (dy (v ! i)))\<^sup>2)"
    by (rule ext) (simp add: exceeds_def magnitude_sq_def power2_eq_square)
  have "lookformotion_loop (mapc s) v ?n 0 0 =
      Some (0 + int (length (filter (exceeds (mapc s) v) [nat 0 ..< nat ?n])))"
    using a by (intro loop_count) simp_all
  then show l: "lookformotion_loop (mapc s) v ?n 0 0 = Some ?c"
    by (simp add: count_card e)
  show "lookformotion v s =
        (case dumppng v s of
           None \<Rightarrow> None
         | Some s0 \<Rightarrow>
            (case ma_filter s0 ?c of
               None \<Rightarrow> None
             | Some (ft, nf, s1) \<Rightarrow>
                 if threshold s1 \<le> ft then Some (s1\<lparr>events := events s1 @ [(ft, movement)]\<rparr>)
                 else Some s1))"
    unfolding lookformotion_def Let_def l by simp
next
  show "lookformotion_loop (replicate 4 100) still_frame 4 0 0 = Some 0" by code_simp
next
  show "lookformotion_loop (replicate 4 100) spike_frame 4 0 0 = Some 1" by code_simp
qed

theorem C5_lookformotion_counts_witness:
  "initmotion zero_junk 16 32 None 10 1 12 = Some (0, example_init) \<and>
   width example_init = cdiv (16 + 15) 16 + 1 \<and> height example_init = cdiv (32 + 15) 16 \<and>
   width example_init * height example_init \<le> int (length (mapc example_init)) \<and>
   width example_init * height example_init \<le> int (length edge_frame) \<and>
   lookformotion_loop (mapc example_init) edge_frame (width example_init * height example_init) 0 0 =
     Some (int (card {i. i < nat (width example_init * height example_init) \<and>
        uint (mapc example_init ! i)
          < (sint (dx (edge_frame ! i)))\<^sup>2 + (sint (dy (edge_frame ! i)))\<^sup>2})) \<and>
   lookformotion_loop (mapc example_init) edge_frame (width example_init * height example_init) 0 0 =
     Some 1"
proof -
  have i: "initmotion zero_junk 16 32 None 10 1 12 = Some (0, example_init)"
    by code_simp
  have h: "width example_init * height example_init \<le> int (length (mapc example_init)) \<and>
      width example_init * height example_init \<le> int (length edge_frame)"
    by (simp add: example_init_def edge_frame_def)
  have e: "lookformotion_loop (mapc example_init) edge_frame
      (width example_init * height example_init) 0 0 = Some 1"
    by code_simp
  from C5_lookformotion_counts [THEN conjunct1, rule_format, OF i]
    C5_lookformotion_counts [THEN conjunct2, THEN conjunct1, rule_format, OF h, THEN conjunct1]
    i h e
  show ?thesis by simp
qed

section \<open>Building the map\<close>

lemma initmotion_row_total:
  "0 \<le> x \<Longrightarrow> 0 \<le> y * cols \<Longrightarrow> y * cols + cols - 1 \<le> int (length m) \<Longrightarrow>
   \<exists>m'. initmotion_row m cols sens y x = Some m' \<and> length m' = length m"
proof (induction m cols sens y x rule: initmotion_row.induct)
  case (1 m cols sens y x)
  show ?case
  proof (cases "x < cols - 1")
    case False
    then show ?thesis by (subst initmotion_row.simps) simp
  next
    case True
    let ?m = "m[nat (y * cols + x) := word_of_int sens]"
    have st: "store_at m (y * cols + x) (word_of_int sens) = Some ?m"
      using True 1(2-4) by (simp add: store_at_def)
    have "\<exists>m'. initmotion_row ?m cols sens y (x + 1) = Some m' \<and> length m' = length ?m"
      using 1(1) [OF True st] 1(2-4) by simp
    moreover have "initmotion_row m cols sens y x = initmotion_row ?m cols sens y (x + 1)"
      by (subst initmotion_row.simps) (simp only: True if_True st option.simps)
    ultimately show ?thesis by simp
  qed
qed

lemma initmotion_rows_total:
  "0 \<le> y \<Longrightarrow> 0 \<le> cols \<Longrightarrow> int (length m) = (cols + 1) * rows \<Longrightarrow>
   \<exists>m'. initmotion_rows m rows cols sens y = Some m' \<and> length m' = length m"
proof (induction m rows cols sens y rule: initmotion_rows.induct)
  case (1 m rows cols sens y)
  show ?case
  proof (cases "y < rows")
    case False
    then show ?thesis by (subst initmotion_rows.simps) simp
  next
    case True
    note b = row_bound [OF 1(2) True 1(3)]
    have "y * cols + cols - 1 \<le> int (length m)" using b(3) 1(4) by simp
    from initmotion_row_total [OF _ b(1) this, of 0 sens] obtain m1 where
      r: "initmotion_row m cols sens y 0 = Some m1" and l1: "length m1 = length m" by auto
    let ?m2 = "m1[nat (y * cols + cols) := 65535]"
    have st: "store_at m1 (y * cols + cols) 65535 = Some ?m2"
      using b 1(3,4) l1 by (simp add: store_at_def)
    have "\<exists>m'. initmotion_rows ?m2 rows cols sens (y + 1) = Some m' \<and> length m' = length ?m2"
      using 1(1) [OF True r st] 1(2-4) l1 by simp
    moreover have "initmotion_rows m rows cols sens y = initmotion_rows ?m2 rows cols sens (y + 1)"
      by (subst initmotion_rows.simps) (simp only: True if_True r st option.simps)
    ultimately show ?thesis using l1 by simp
  qed
qed

lemma cdiv16_nonneg: "0 \<le> w \<Longrightarrow> 0 \<le> cdiv (w + 15) 16"
  by (simp add: cdiv_nonneg pos_imp_zdiv_nonneg_iff)

lemma initmotion_fill_total:
  assumes "0 \<le> cols"
  shows "\<exists>m'. initmotion_rows (map junk [0 ..< nat ((cols + 1) * rows)]) rows cols sens 0 = Some m'"
proof (cases "0 < rows")
  case False
  then show ?thesis by (subst initmotion_rows.simps) simp
next
  case True
  then have "0 \<le> (cols + 1) * rows" using assms by simp
  then have "int (length (map junk [0 ..< nat ((cols + 1) * rows)])) = (cols + 1) * rows"
    by simp
  from initmotion_rows_total [OF _ assms this, of 0 sens] show ?thesis by auto
qed

lemma initmotion_any_window:
  assumes "0 \<le> pwidth"
  shows "\<exists>s. initmotion junk pwidth pheight None sens thresh wsize = Some (0, s) \<and>
           detectionthread s \<and> window_size s = wsize \<and>
           filter_window s = replicate (nat wsize) 0"
proof -
  let ?rows = "cdiv (pheight + 15) 16" and ?cols = "cdiv (pwidth + 15) 16 + 1"
  let ?sens = "if sens * sens > 65535 then 65535 else sens * sens"
  have cols: "0 \<le> ?cols" using cdiv16_nonneg [OF assms] by simp
  from initmotion_fill_total [OF cols, of junk ?rows ?sens] obtain m' where
    "initmotion_rows (map junk [0 ..< nat ((?cols + 1) * ?rows)]) ?rows ?cols ?sens 0 = Some m'"
    by blast
  then show ?thesis
    by (simp add: initmotion_def Let_def)
qed

text \<open>
  C7, as stated, fails: \<open>initmotion\<close> never looks at \<open>window_size\<close>.  Called with a
  window of five samples it returns 0 and creates the worker thread, and the detector
  state holds the window of five.
\<close>

theorem C7_small_window_counterexample:
  "initmotion zero_junk 16 32 None 10 1 5 =
     Some (0, example_init\<lparr>window_size := 5, filter_window := replicate 5 0\<rparr>) \<and>
   detectionthread (example_init\<lparr>window_size := 5, filter_window := replicate 5 0\<rparr>)"
  by code_simp

text \<open>
  C7, amended.  \<open>initmotion\<close> does not validate \<open>window_size\<close>: for every value of it,
  also one smaller than twelve, a call without a map file (and with a pixel width that
  is not negative) returns 0, creates the worker thread and stores the given
  \<open>window_size\<close> with a zeroed ring of that many slots.
\<close>

theorem C7_window_size_unchecked:
  assumes "0 \<le> pwidth"
  shows "\<exists>s. initmotion junk pwidth pheight None sens thresh wsize = Some (0, s) \<and>
           detectionthread s \<and> window_size s = wsize \<and>
           filter_window s = replicate (nat wsize) 0"
  using assms by (rule initmotion_any_window)

theorem C7_window_size_unchecked_witness:
  "(0::int) \<le> 16 \<and>
   (\<exists>s. initmotion zero_junk 16 32 None 10 1 5 = Some (0, s) \<and>
        detectionthread s \<and> window_size s = 5 \<and> filter_window s = replicate (nat 5) 0)"
  using C7_window_size_unchecked [of 16 zero_junk 32 10 1 5] by simp

lemma readmap_row_total:
  "0 \<le> j \<Longrightarrow> 0 \<le> i * w \<Longrightarrow> i * w + w - 1 \<le> int (length m) \<Longrightarrow> w - 1 \<le> int (length r) \<Longrightarrow>
   \<exists>m'. readmap_row m w r i j = Some m' \<and> length m' = length m"
proof (induction m w r i j rule: readmap_row.induct)
  case (1 m w r i j)
  show ?case
  proof (cases "j < w - 1")
    case False
    then show ?thesis by (subst readmap_row.simps) simp
  next
    case True
    let ?p = "r ! nat j"
    let ?m = "m[nat (i * w + j) := word_of_int (uint ?p * uint ?p)]"
    have ld: "load_at r j = Some ?p"
      using True 1(2,5) by (simp add: load_at_def)
    have st: "store_at m (i * w + j) (word_of_int (uint ?p * uint ?p)) = Some ?m"
      using True 1(2-4) by (simp add: store_at_def)
    have "\<exists>m'. readmap_row ?m w r i (j + 1) = Some m' \<and> length m' = length ?m"
      using 1(1) [OF True ld st] 1(2-5) by simp
    moreover have "readmap_row m w r i j = readmap_row ?m w r i (j + 1)"
      by (subst readmap_row.simps) (simp only: True if_True ld st option.simps)
    ultimately show ?thesis by simp
  qed
qed

lemma readmap_rows_total:
  "0 \<le> i \<Longrightarrow> 0 \<le> w \<Longrightarrow> int (length m) = (w + 1) * h \<Longrightarrow> h \<le> int (length rows) \<Longrightarrow>
   (\<forall>k<nat h. w - 1 \<le> int (length (rows ! k))) \<Longrightarrow>
   \<exists>m'. readmap_rows m w h rows i = Some m' \<and> length m' = length m"
proof (induction m w h rows i rule: readmap_rows.induct)
  case (1 m w h rows i)
  show ?case
  proof (cases "i < h")
    case False
    then show ?thesis by (subst readmap_rows.simps) simp
  next
    case True
    note b = row_bound [OF 1(2) True 1(3)]
    let ?r = "rows ! nat i"
    have ld: "load_at rows i = Some ?r"
      using True 1(2,5) by (simp add: load_at_def)
    have rl: "w - 1 \<le> int (length ?r)"
      using 1(6) [rule_format, of "nat i"] True 1(2) by simp
    have "i * w + w - 1 \<le> int (length m)" using b(3) 1(4) by simp
    from readmap_row_total [OF _ b(1) this rl, of 0] obtain m1 where
      r: "readmap_row m w ?r i 0 = Some m1" and l1: "length m1 = length m" by auto
    let ?m2 = "m1[nat ((i + 1) * w) := 65535]"
    have ix: "(i + 1) * w = i * w + w" by (simp add: algebra_simps)
    have st: "store_at m1 ((i + 1) * w) 65535 = Some ?m2"
      unfolding ix using b 1(3,4) l1 by (simp add: store_at_def)
    have "\<exists>m'. readmap_rows ?m2 w h rows (i + 1) = Some m' \<and> length m' = length ?m2"
      using 1(1) [OF True ld r st] 1(2-6) l1 by simp
    moreover have "readmap_rows m w h rows i = readmap_rows ?m2 w h rows (i + 1)"
      by (subst readmap_rows.simps) (simp only: True if_True ld r st option.simps)
    ultimately show ?thesis using l1 by simp
  qed
qed

text \<open>
  What the uniform fill leaves in the map, cell by cell: from row \<open>y\<close> on, the cells
  of the columns \<open>0 .. cols - 2\<close> hold the sensitivity, the cell after the last row holds
  65535, and every other cell, the whole column \<open>cols - 1\<close> among them, is as before.
\<close>

lemma initmotion_row_nth:
  "initmotion_row m cols sens y x = Some m' \<Longrightarrow> 0 \<le> x \<Longrightarrow> 0 \<le> y * cols \<Longrightarrow> 0 \<le> k \<Longrightarrow>
   k < int (length m) \<Longrightarrow>
   m' ! nat k = (if y * cols + x \<le> k \<and> k < y * cols + cols - 1 then word_of_int sens else m ! nat k)"
proof (induction m cols sens y x arbitrary: m' rule: initmotion_row.induct)
  case (1 m cols sens y x)
  show ?case
  proof (cases "x < cols - 1")
    case False
    then have "m' = m" using 1(2) by (subst (asm) initmotion_row.simps) simp
    moreover have "\<not> (y * cols + x \<le> k \<and> k < y * cols + cols - 1)"
      using False by linarith
    ultimately show ?thesis by (simp only: if_False)
  next
    case True
    let ?m = "m[nat (y * cols + x) := word_of_int sens]"
    from 1(2) True have ib: "y * cols + x < int (length m)" and
      r: "initmotion_row ?m cols sens y (x + 1) = Some m'"
      by (subst (asm) initmotion_row.simps, simp add: store_at_def split: if_splits)+
    have st: "store_at m (y * cols + x) (word_of_int sens) = Some ?m"
      using ib 1(3,4) by (simp add: store_at_def)
    have ih: "m' ! nat k = (if y * cols + (x + 1) \<le> k \<and> k < y * cols + cols - 1
        then word_of_int sens else ?m ! nat k)"
      using 1(1) [OF True st r] 1(3-6) by simp
    show ?thesis
    proof (cases "k = y * cols + x")
      case eq: True
      then show ?thesis using ih True ib 1(3,4) by simp
    next
      case False
      then have "nat k \<noteq> nat (y * cols + x)" using 1(3-5) by simp
      then show ?thesis using ih False by auto
    qed
  qed
qed


lemma row_offset_mod:
  fixes B cols k :: int
  assumes "B mod cols = 0" "B \<le> k" "k < B + cols"
  shows "k mod cols = k - B"
proof -
  from assms(1) obtain q where q: "B = cols * q" by (auto simp: mod_eq_0_iff_dvd)
  have "(k - B) mod cols = k mod cols"
    unfolding q using mod_diff_right_eq [of k "cols * q" cols] by simp
  moreover have "(k - B) mod cols = k - B" using assms(2,3) by (simp add: mod_pos_pos_trivial)
  ultimately show ?thesis by simp
qed

lemma initmotion_rows_nth:
  "initmotion_rows m rows cols sens y = Some m' \<Longrightarrow> 0 \<le> y \<Longrightarrow> 2 \<le> cols \<Longrightarrow>
   int (length m) = (cols + 1) * rows \<Longrightarrow> 0 \<le> k \<Longrightarrow> k < int (length m) \<Longrightarrow>
   m' ! nat k =
     (if y * cols \<le> k \<and> k < rows * cols \<and> k mod cols < cols - 1 then word_of_int sens
      else if y < rows \<and> k = rows * cols then 65535 else m ! nat k)"
proof (induction m rows cols sens y arbitrary: m' rule: initmotion_rows.induct)
  case (1 m rows cols sens y)
  show ?case
  proof (cases "y < rows")
    case False
    then have "m' = m" using 1(2) by (subst (asm) initmotion_rows.simps) simp
    moreover have "\<not> (y * cols \<le> k \<and> k < rows * cols \<and> k mod cols < cols - 1)"
    proof -
      have "rows * cols \<le> y * cols" using False 1(4) by (intro mult_right_mono) auto
      then show ?thesis by linarith
    qed
    ultimately show ?thesis using False by (simp only: if_False) simp
  next
    case True
    define B where "B = y * cols"
    define R where "R = rows * cols"
    have c0: "0 \<le> cols" using 1(4) by simp
    note b = row_bound [OF 1(3) True c0]
    have B0: "0 \<le> B" and BR: "B + cols \<le> R" and BL: "B + cols < int (length m)"
      using b 1(5) by (simp_all add: B_def R_def)
    have Bm: "B mod cols = 0" by (simp add: B_def)
    have nx: "(y + 1) * cols = B + cols" by (simp add: B_def algebra_simps)
    have strict: "B + cols < R" if "y + 1 < rows"
    proof -
      have "(y + 2) * cols \<le> rows * cols" using that 1(4) by (intro mult_right_mono) auto
      then show ?thesis using 1(4) by (simp add: B_def R_def algebra_simps)
    qed
    have last: "R = B + cols" if "\<not> y + 1 < rows"
    proof -
      have "rows = y + 1" using that True by simp
      then show ?thesis by (simp add: B_def R_def algebra_simps)
    qed
    have "y * cols + cols - 1 \<le> int (length m)" using BL by (simp add: B_def)
    from initmotion_row_total [OF _ b(1) this, of 0 sens] obtain m1' where
      "initmotion_row m cols sens y 0 = Some m1'" and l1': "length m1' = length m" by auto
    let ?m2 = "m1'[nat (y * cols + cols) := 65535]"
    have r1: "initmotion_row m cols sens y 0 = Some m1'" by fact
    have st: "store_at m1' (y * cols + cols) 65535 = Some ?m2"
      using BL B0 c0 l1' by (simp add: store_at_def B_def)
    have r2: "initmotion_rows ?m2 rows cols sens (y + 1) = Some m'"
      using 1(2) by (subst (asm) initmotion_rows.simps) (simp only: True if_True r1 st option.simps)
    have row: "m1' ! nat k = (if B \<le> k \<and> k < B + cols - 1 then word_of_int sens else m ! nat k)"
      using initmotion_row_nth [OF r1 _ b(1) 1(6,7)] by (simp add: B_def)
    have m2: "?m2 ! nat k = (if k = B + cols then 65535 else m1' ! nat k)"
      using 1(6,7) l1' B0 c0 by (auto simp: B_def nth_list_update)
    have ih: "m' ! nat k =
        (if B + cols \<le> k \<and> k < R \<and> k mod cols < cols - 1 then word_of_int sens
         else if y + 1 < rows \<and> k = R then 65535 else ?m2 ! nat k)"
      using 1(1) [OF True r1 st r2] 1(3-7) l1' by (simp add: nx R_def)
    have goal: "m' ! nat k =
        (if B \<le> k \<and> k < R \<and> k mod cols < cols - 1 then word_of_int sens
         else if k = R then 65535 else m ! nat k)"
    proof -
      consider (before) "k < B" | (inrow) "B \<le> k" "k < B + cols - 1" | (sent) "k = B + cols - 1"
        | (nxt) "k = B + cols" | (after) "B + cols < k" by linarith
      then show ?thesis
      proof cases
        case before
        then show ?thesis using ih m2 row BR 1(4) by simp
      next
        case inrow
        then have "k mod cols = k - B" using row_offset_mod [OF Bm, of k] by simp
        then show ?thesis using ih m2 row BR inrow by simp
      next
        case sent
        then have "k mod cols = cols - 1" using row_offset_mod [OF Bm, of k] 1(4) by simp
        then show ?thesis using ih m2 row BR sent 1(4) by simp
      next
        case nxt
        then have md: "k mod cols = 0" using Bm by simp
        show ?thesis
        proof (cases "y + 1 < rows")
          case t: True
          then show ?thesis using ih md nxt strict [OF t] 1(4) by simp
        next
          case f: False
          then show ?thesis using ih m2 md nxt last [OF f] by simp
        qed
      next
        case after
        show ?thesis
        proof (cases "y + 1 < rows")
          case t: True
          then show ?thesis using ih m2 row after 1(4) by auto
        next
          case f: False
          then show ?thesis using ih m2 row after last [OF f] 1(4) by auto
        qed
      qed
    qed
    then show ?thesis using True by (simp add: B_def R_def)
  qed
qed


lemma cdiv16_pos: "1 \<le> w \<Longrightarrow> 1 \<le> cdiv (w + 15) 16"
proof -
  assume "1 \<le> w"
  then have "16 \<le> w + 15" by simp
  then have "1 \<le> (w + 15) div 16" by (simp add: pos_imp_zdiv_pos_iff)
  moreover have "cdiv (w + 15) 16 = (w + 15) div 16"
    using \<open>1 \<le> w\<close> by (intro cdiv_nonneg) simp_all
  ultimately show ?thesis by simp
qed

lemma initmotion_uniform_map:
  assumes pw: "1 \<le> pwidth"
  shows "\<exists>s. initmotion junk pwidth pheight None sens thresh wsize = Some (0, s) \<and>
     width s = cdiv (pwidth + 15) 16 + 1 \<and> height s = cdiv (pheight + 15) 16 \<and>
     (\<forall>y x. 0 \<le> y \<and> y < height s \<and> 0 \<le> x \<and> x < width s - 1 \<longrightarrow>
        mapc s ! nat (y * width s + x) = word_of_int (min (sens * sens) 65535)) \<and>
     (\<forall>y. 0 \<le> y \<and> y < height s \<longrightarrow>
        mapc s ! nat (y * width s + (width s - 1)) = junk (nat (y * width s + (width s - 1))))"
proof -
  let ?rows = "cdiv (pheight + 15) 16" and ?cols = "cdiv (pwidth + 15) 16 + 1"
  let ?sens = "if sens * sens > 65535 then 65535 else sens * sens"
  let ?m = "map junk [0 ..< nat ((?cols + 1) * ?rows)]"
  have cols: "2 \<le> ?cols" using cdiv16_pos [OF pw] by simp
  then have c0: "0 \<le> ?cols" by simp
  have sens: "?sens = min (sens * sens) 65535" by (simp add: min_def)
  from initmotion_fill_total [OF c0, of junk ?rows ?sens] obtain m' where
    r: "initmotion_rows ?m ?rows ?cols ?sens 0 = Some m'" by blast
  let ?s = "\<lparr>width = ?cols, height = ?rows, mapc = m', vectors = None, threshold = thresh,
      detectionthread = True, flags = 2, window_size = wsize,
      filter_window = replicate (nat wsize) 0,
      ma_i = 0, ma_sum = 0, events = [], heap = [], brk = 0, freed = [], fnum = 0\<rparr>"
  have init: "initmotion junk pwidth pheight None sens thresh wsize = Some (0, ?s)"
    using r by (simp add: initmotion_def Let_def)
  have cell: "m' ! nat (y * ?cols + x) = word_of_int (min (sens * sens) 65535)"
    if "0 \<le> y" "y < ?rows" "0 \<le> x" "x < ?cols - 1" for y x
  proof -
    note b = row_bound [OF that(1,2) c0]
    have len: "int (length ?m) = (?cols + 1) * ?rows"
      using that(1,2) c0 by simp
    have k: "0 \<le> y * ?cols + x" "y * ?cols + x < int (length ?m)" "y * ?cols + x < ?rows * ?cols"
      using b that(3,4) len by simp_all
    have md: "(y * ?cols + x) mod ?cols = x"
      using that(3,4) by (simp add: mod_pos_pos_trivial)
    have cond: "0 * ?cols \<le> y * ?cols + x \<and> y * ?cols + x < ?rows * ?cols \<and>
        (y * ?cols + x) mod ?cols < ?cols - 1"
      using k md that(4) by simp
    have "m' ! nat (y * ?cols + x) = word_of_int ?sens"
      using initmotion_rows_nth [OF r order_refl cols len k(1,2)] by (simp only: cond if_True simp_thms)
    then show ?thesis by (simp only: sens)
  qed
  have sent: "m' ! nat (y * ?cols + (?cols - 1)) = junk (nat (y * ?cols + (?cols - 1)))"
    if "0 \<le> y" "y < ?rows" for y
  proof -
    note b = row_bound [OF that(1,2) c0]
    have len: "int (length ?m) = (?cols + 1) * ?rows"
      using that(1,2) c0 by simp
    have k: "0 \<le> y * ?cols + (?cols - 1)" "y * ?cols + (?cols - 1) < int (length ?m)"
       "y * ?cols + (?cols - 1) < ?rows * ?cols"
      using b cols len by simp_all
    have md: "(y * ?cols + (?cols - 1)) mod ?cols = ?cols - 1"
      using cols by (simp add: mod_pos_pos_trivial)
    have c1: "\<not> (0 * ?cols \<le> y * ?cols + (?cols - 1) \<and> y * ?cols + (?cols - 1) < ?rows * ?cols \<and>
        (y * ?cols + (?cols - 1)) mod ?cols < ?cols - 1)"
      unfolding md by simp
    have c2: "\<not> (0 < ?rows \<and> y * ?cols + (?cols - 1) = ?rows * ?cols)"
      using k(3) by simp
    have "m' ! nat (y * ?cols + (?cols - 1)) = ?m ! nat (y * ?cols + (?cols - 1))"
      using initmotion_rows_nth [OF r order_refl cols len k(1,2)] by (simp only: c1 c2 if_False simp_thms)
    also have "\<dots> = junk (nat (y * ?cols + (?cols - 1)))"
    proof -
      have "y * ?cols + (?cols - 1) < (?cols + 1) * ?rows"
        using b(3) by simp
      then have lt: "nat (y * ?cols + (?cols - 1)) < length [0 ..< nat ((?cols + 1) * ?rows)]"
        using k(1) by simp
      have "?m ! nat (y * ?cols + (?cols - 1)) =
          junk ([0 ..< nat ((?cols + 1) * ?rows)] ! nat (y * ?cols + (?cols - 1)))"
        by (rule nth_map [OF lt])
      also have "[0 ..< nat ((?cols + 1) * ?rows)] ! nat (y * ?cols + (?cols - 1)) =
          nat (y * ?cols + (?cols - 1))"
        using lt by simp
      finally show ?thesis .
    qed
    finally show ?thesis .
  qed
  show ?thesis
    using init cell sent by (intro exI [of _ ?s]) simp
qed

text \<open>The same for the cells \<open>readmap\<close> fills.\<close>

lemma readmap_row_nth:
  "readmap_row m w r i j = Some m' \<Longrightarrow> 0 \<le> j \<Longrightarrow> 0 \<le> i * w \<Longrightarrow> 0 \<le> k \<Longrightarrow>
   k < int (length m) \<Longrightarrow>
   m' ! nat k =
     (if i * w + j \<le> k \<and> k < i * w + w - 1
      then word_of_int (uint (r ! nat (k - i * w)) * uint (r ! nat (k - i * w)))
      else m ! nat k)"
proof (induction m w r i j arbitrary: m' rule: readmap_row.induct)
  case (1 m w r i j)
  show ?case
  proof (cases "j < w - 1")
    case False
    then have "m' = m" using 1(2) by (subst (asm) readmap_row.simps) simp
    moreover have "\<not> (i * w + j \<le> k \<and> k < i * w + w - 1)"
      using False by linarith
    ultimately show ?thesis by (simp only: if_False)
  next
    case True
    let ?p = "r ! nat j"
    let ?m = "m[nat (i * w + j) := word_of_int (uint ?p * uint ?p)]"
    from 1(2) True have jb: "j < int (length r)"
      by (subst (asm) readmap_row.simps) (simp add: load_at_def split: if_splits)
    have ld: "load_at r j = Some ?p" using jb 1(3) by (simp add: load_at_def)
    from 1(2) True ld have ib: "i * w + j < int (length m)"
      by (subst (asm) readmap_row.simps) (simp add: store_at_def split: if_splits)
    have st: "store_at m (i * w + j) (word_of_int (uint ?p * uint ?p)) = Some ?m"
      using ib 1(3,4) by (simp add: store_at_def)
    have r: "readmap_row ?m w r i (j + 1) = Some m'"
      using 1(2) by (subst (asm) readmap_row.simps) (simp only: True if_True ld st option.simps)
    have ih: "m' ! nat k = (if i * w + (j + 1) \<le> k \<and> k < i * w + w - 1
        then word_of_int (uint (r ! nat (k - i * w)) * uint (r ! nat (k - i * w)))
        else ?m ! nat k)"
      using 1(1) [OF True ld st r] 1(3-6) by simp
    show ?thesis
    proof (cases "k = i * w + j")
      case eq: True
      then have "k - i * w = j" by simp
      then show ?thesis using ih True ib 1(3,4) eq by simp
    next
      case False
      then have "nat k \<noteq> nat (i * w + j)" using 1(3-5) by simp
      then show ?thesis using ih False by auto
    qed
  qed
qed


lemma row_offset_div:
  fixes y w k :: int
  assumes "0 < w" "y * w \<le> k" "k < y * w + w"
  shows "k div w = y"
proof -
  have "k = y * w + (k - y * w)" by simp
  moreover have "0 \<le> k - y * w" "k - y * w < w" using assms by simp_all
  ultimately show ?thesis
    using assms(1) by (metis div_mult_self3 div_pos_pos_trivial add.commute less_le_not_le add_0)
qed


lemma readmap_row_length:
  "readmap_row m w r i j = Some m' \<Longrightarrow> length m' = length m"
proof (induction m w r i j arbitrary: m' rule: readmap_row.induct)
  case (1 m w r i j)
  show ?case
  proof (cases "j < w - 1")
    case False
    then show ?thesis using 1(2) by (subst (asm) readmap_row.simps) simp
  next
    case True
    from 1(2) True obtain p m1 where
      ld: "load_at r j = Some p"
      and st: "store_at m (i * w + j) (word_of_int (uint p * uint p)) = Some m1"
      and r: "readmap_row m1 w r i (j + 1) = Some m'"
      by (subst (asm) readmap_row.simps) (auto split: option.splits)
    have "length m1 = length m" using st by (auto simp: store_at_def split: if_splits)
    then show ?thesis using 1(1) [OF True ld st r] by simp
  qed
qed

lemma readmap_rows_nth:
  "readmap_rows m w h rows i = Some m' \<Longrightarrow> 0 \<le> i \<Longrightarrow> 2 \<le> w \<Longrightarrow>
   int (length m) = (w + 1) * h \<Longrightarrow> 0 \<le> k \<Longrightarrow> k < int (length m) \<Longrightarrow>
   m' ! nat k =
     (if i * w \<le> k \<and> k < h * w \<and> k mod w < w - 1
      then word_of_int (uint (rows ! nat (k div w) ! nat (k mod w)) *
                        uint (rows ! nat (k div w) ! nat (k mod w)))
      else if i < h \<and> k = h * w then 65535 else m ! nat k)"
proof (induction m w h rows i arbitrary: m' rule: readmap_rows.induct)
  case (1 m w h rows i)
  let ?sq = "word_of_int (uint (rows ! nat (k div w) ! nat (k mod w)) *
                        uint (rows ! nat (k div w) ! nat (k mod w))) :: u16"
  show ?case
  proof (cases "i < h")
    case False
    then have "m' = m" using 1(2) by (subst (asm) readmap_rows.simps) simp
    moreover have "\<not> (i * w \<le> k \<and> k < h * w \<and> k mod w < w - 1)"
    proof -
      have "h * w \<le> i * w" using False 1(4) by (intro mult_right_mono) auto
      then show ?thesis by linarith
    qed
    ultimately show ?thesis using False by (simp only: if_False) simp
  next
    case True
    define B where "B = i * w"
    define R where "R = h * w"
    have c0: "0 \<le> w" and wp: "0 < w" using 1(4) by simp_all
    note b = row_bound [OF 1(3) True c0]
    have B0: "0 \<le> B" and BR: "B + w \<le> R" and BL: "B + w < int (length m)"
      using b 1(5) by (simp_all add: B_def R_def)
    have Bm: "B mod w = 0" by (simp add: B_def)
    have nx: "(i + 1) * w = B + w" by (simp add: B_def algebra_simps)
    have strict: "B + w < R" if "i + 1 < h"
    proof -
      have "(i + 2) * w \<le> h * w" using that 1(4) by (intro mult_right_mono) auto
      then show ?thesis using 1(4) by (simp add: B_def R_def algebra_simps)
    qed
    have last: "R = B + w" if "\<not> i + 1 < h"
    proof -
      have "h = i + 1" using that True by simp
      then show ?thesis by (simp add: B_def R_def algebra_simps)
    qed
    from 1(2) True obtain r m1 m2 where
      ld: "load_at rows i = Some r" and r1: "readmap_row m w r i 0 = Some m1"
      and st: "store_at m1 ((i + 1) * w) 65535 = Some m2"
      and r2: "readmap_rows m2 w h rows (i + 1) = Some m'"
      by (subst (asm) readmap_rows.simps) (auto split: option.splits)
    have rr: "r = rows ! nat i" using ld by (simp add: load_at_def split: if_splits)
    have l1: "length m1 = length m" by (rule readmap_row_length [OF r1])
    have m2d: "m2 = m1[nat (B + w) := 65535]"
      using st by (simp add: store_at_def nx split: if_splits)
    have row: "m1 ! nat k = (if B \<le> k \<and> k < B + w - 1
        then word_of_int (uint (r ! nat (k - B)) * uint (r ! nat (k - B))) else m ! nat k)"
      using readmap_row_nth [OF r1 _ b(1) 1(6,7)] by (simp add: B_def)
    have m2: "m2 ! nat k = (if k = B + w then 65535 else m1 ! nat k)"
      unfolding m2d using 1(6,7) l1 B0 c0 by (auto simp: nth_list_update)
    have ih: "m' ! nat k =
        (if B + w \<le> k \<and> k < R \<and> k mod w < w - 1 then ?sq
         else if i + 1 < h \<and> k = R then 65535 else m2 ! nat k)"
      using 1(1) [OF True ld r1 st r2] 1(3-7) l1 m2d by (simp add: nx R_def)
    have goal: "m' ! nat k =
        (if B \<le> k \<and> k < R \<and> k mod w < w - 1 then ?sq
         else if k = R then 65535 else m ! nat k)"
    proof -
      consider (before) "k < B" | (inrow) "B \<le> k" "k < B + w - 1" | (sent) "k = B + w - 1"
        | (nxt) "k = B + w" | (after) "B + w < k" by linarith
      then show ?thesis
      proof cases
        case before
        then show ?thesis using ih m2 row BR 1(4) by simp
      next
        case inrow
        then have md: "k mod w = k - B" using row_offset_mod [OF Bm, of k] by simp
        have dv: "k div w = i" using row_offset_div [OF wp, of i k] inrow by (simp add: B_def)
        show ?thesis using ih m2 row BR inrow md dv rr by simp
      next
        case sent
        then have "k mod w = w - 1" using row_offset_mod [OF Bm, of k] 1(4) by simp
        then show ?thesis using ih m2 row BR sent 1(4) by simp
      next
        case nxt
        then have md: "k mod w = 0" using Bm by simp
        show ?thesis
        proof (cases "i + 1 < h")
          case t: True
          then show ?thesis using ih md nxt strict [OF t] 1(4) by simp
        next
          case f: False
          then show ?thesis using ih m2 md nxt last [OF f] by simp
        qed
      next
        case after
        show ?thesis
        proof (cases "i + 1 < h")
          case t: True
          then show ?thesis using ih m2 row after 1(4) by auto
        next
          case f: False
          then show ?thesis using ih m2 row after last [OF f] 1(4) by auto
        qed
      qed
    qed
    then show ?thesis using True by (simp add: B_def R_def)
  qed
qed


lemma readmap_rows_cells:
  assumes r: "readmap_rows m w h rows 0 = Some m'" and w: "0 \<le> w"
    and len: "int (length m) = (w + 1) * h"
    and i: "0 \<le> i" "i < h" and j: "0 \<le> j" "j < w - 1"
  shows "m' ! nat (i * w + j) = word_of_int (uint (rows ! nat i ! nat j) * uint (rows ! nat i ! nat j))"
proof -
  have w2: "2 \<le> w" using j by simp
  have wp: "0 < w" using w2 by simp
  note b = row_bound [OF i w]
  have k: "0 \<le> i * w + j" "i * w + j < int (length m)" "i * w + j < h * w"
    using b j len by simp_all
  have md: "(i * w + j) mod w = j" using j by (simp add: mod_pos_pos_trivial)
  have dv: "(i * w + j) div w = i" using row_offset_div [OF wp, of i "i * w + j"] j by simp
  have cond: "0 * w \<le> i * w + j \<and> i * w + j < h * w \<and> (i * w + j) mod w < w - 1"
    using k md j by simp
  show ?thesis
    using readmap_rows_nth [OF r order_refl w2 len k(1,2)]
    by (simp only: cond if_True simp_thms md dv j(2))
qed

text \<open>
  C8, as stated, fails: \<open>readmap\<close> compares no dimensions.  For the grid of two rows and
  one pixel column (\<open>mctx.width - 1 = 1\<close>) an image of three rows of three pixels is
  accepted: \<open>initmotion\<close> returns 0, creates the worker thread, and the map holds the
  squares of the pixels in the image's upper left corner.
\<close>

theorem C8_mismatched_image_counterexample:
  "length image3x3 = 3 \<and> length (image3x3 ! 0) = 3 \<and>
   height example_init = 2 \<and> width example_init - 1 = 1 \<and>
   initmotion zero_junk 16 32 (Some (Png image3x3)) 10 1 12 =
     Some (0, example_init\<lparr>mapc := [1, 0, 16, 0, 65535, 0]\<rparr>)"
  by code_simp

text \<open>
  C8, amended.  \<open>readmap\<close> returns -1 when the file cannot be opened or does not start
  with a PNG signature.  It makes no dimension check: every decoded image that has at
  least \<open>mctx.height\<close> rows, each of the first \<open>mctx.height\<close> of them with at least
  \<open>mctx.width - 1\<close> pixels, is accepted into the map with the return value 0, whether or
  not its dimensions equal the grid's; the cell of row \<open>i\<close> and column \<open>j\<close> then holds
  the square of the pixel in row \<open>i\<close> and column \<open>j\<close> of the image, and the pixels
  beyond the grid are ignored.
\<close>

theorem C8_readmap_no_dimension_check:
  "readmap Unreadable s = Some (-1, s) \<and> readmap BadSignature s = Some (-1, s) \<and>
   (0 \<le> width s \<and> int (length (mapc s)) = (width s + 1) * height s \<and>
    height s \<le> int (length rows) \<and>
    (\<forall>k<nat (height s). width s - 1 \<le> int (length (rows ! k))) \<longrightarrow>
    (\<exists>m. readmap (Png rows) s = Some (0, s\<lparr>mapc := m\<rparr>) \<and> length m = length (mapc s) \<and>
       (\<forall>i j. 0 \<le> i \<and> i < height s \<and> 0 \<le> j \<and> j < width s - 1 \<longrightarrow>
          m ! nat (i * width s + j) =
            word_of_int (uint (rows ! nat i ! nat j) * uint (rows ! nat i ! nat j)))))"
proof (intro conjI impI)
  show "readmap Unreadable s = Some (-1, s)" by (simp add: readmap_def)
  show "readmap BadSignature s = Some (-1, s)" by (simp add: readmap_def)
  assume a: "0 \<le> width s \<and> int (length (mapc s)) = (width s + 1) * height s \<and>
    height s \<le> int (length rows) \<and>
    (\<forall>k<nat (height s). width s - 1 \<le> int (length (rows ! k)))"
  from readmap_rows_total [of 0 "width s" "mapc s" "height s" rows] a obtain m' where
    r: "readmap_rows (mapc s) (width s) (height s) rows 0 = Some m'"
    and l: "length m' = length (mapc s)"
    by auto
  have cells: "\<forall>i j. 0 \<le> i \<and> i < height s \<and> 0 \<le> j \<and> j < width s - 1 \<longrightarrow>
          m' ! nat (i * width s + j) =
            word_of_int (uint (rows ! nat i ! nat j) * uint (rows ! nat i ! nat j))"
    using readmap_rows_cells [OF r] a by blast
  have "readmap (Png rows) s = Some (0, s\<lparr>mapc := m'\<rparr>)"
    using r by (simp add: readmap_def)
  with l cells show "\<exists>m. readmap (Png rows) s = Some (0, s\<lparr>mapc := m\<rparr>) \<and> length m = length (mapc s) \<and>
       (\<forall>i j. 0 \<le> i \<and> i < height s \<and> 0 \<le> j \<and> j < width s - 1 \<longrightarrow>
          m ! nat (i * width s + j) =
            word_of_int (uint (rows ! nat i ! nat j) * uint (rows ! nat i ! nat j)))"
    by blast
qed

theorem C8_readmap_no_dimension_check_witness:
  "0 \<le> width example_init \<and>
   int (length (mapc example_init)) = (width example_init + 1) * height example_init \<and>
   height example_init \<le> int (length image3x3) \<and>
   (\<exists>m. readmap (Png image3x3) example_init = Some (0, example_init\<lparr>mapc := m\<rparr>) \<and>
        length m = length (mapc example_init) \<and> m ! 0 = 1 \<and> m ! 2 = 16)"
proof -
  have h: "0 \<le> width example_init \<and>
      int (length (mapc example_init)) = (width example_init + 1) * height example_init \<and>
      height example_init \<le> int (length image3x3) \<and>
      (\<forall>k<nat (height example_init). width example_init - 1 \<le> int (length (image3x3 ! k)))"
    by (simp add: example_init_def image3x3_def less_Suc_eq numeral_2_eq_2)
  from C8_readmap_no_dimension_check [THEN conjunct2, THEN conjunct2, rule_format, OF h]
  obtain m where
    r: "readmap (Png image3x3) example_init = Some (0, example_init\<lparr>mapc := m\<rparr>)"
    and l: "length m = length (mapc example_init)"
    and c: "\<forall>i j. 0 \<le> i \<and> i < height example_init \<and> 0 \<le> j \<and> j < width example_init - 1 \<longrightarrow>
          m ! nat (i * width example_init + j) =
            word_of_int (uint (image3x3 ! nat i ! nat j) * uint (image3x3 ! nat i ! nat j))"
    by blast
  have "m ! 0 = 1" "m ! 2 = 16"
    using c [rule_format, of 0 0] c [rule_format, of 1 0]
    by (simp_all add: example_init_def image3x3_def)
  with r l h show ?thesis by blast
qed

text \<open>
  C4.  The first half of the claim holds and the second does not: \<open>initmotion_uniform_map\<close>
  above shows, for every grid with at least one macroblock column, that the uniform fill
  leaves \<open>min (s * s) 65535\<close> in every cell of the columns \<open>0 .. cols - 2\<close> and never
  writes a cell of the sentinel column \<open>cols - 1\<close>.  Here the grid has one macroblock
  column and two rows (\<open>cols = 2\<close>, the sentinel column is column 1).  \<open>initmotion\<close>
  fills the cells of column 0 with \<open>10 * 10 = 100\<close>, but it writes 65535 to
  \<open>map[y*cols + cols]\<close>, the first cell of the next row, which the fill of the next row
  overwrites; only the write after the last row (index 4) survives.  The sentinel cells,
  at the indices 1 and 3, keep what \<open>malloc\<close> returned, here 0.  \<open>readmap\<close> does the
  same with \<open>map[(i+1)*width]\<close>.  Reading the allocated \<open>(cols+1)*rows\<close> cells as rows
  of \<open>cols + 1\<close> cells with the sentinel in column \<open>cols\<close> does not help: those cells,
  at the indices 2 and 5, hold 100 and 0.
\<close>

theorem C4_sentinel_cells_unwritten:
  "map_option (mapc \<circ> snd) (initmotion zero_junk 16 32 None 10 1 12) =
     Some [100, 0, 100, 0, 65535, 0] \<and>
   map_option (mapc \<circ> snd) (initmotion zero_junk 16 32 (Some (Png [[10], [10]])) 10 1 12) =
     Some [100, 0, 100, 0, 65535, 0] \<and>
   [100, 0, 100, 0, 65535, 0] ! (0 * 2 + 1) = (0 :: u16) \<and>
   [100, 0, 100, 0, 65535, 0] ! (1 * 2 + 1) = (0 :: u16) \<and>
   [100, 0, 100, 0, 65535, 0] ! (0 * 3 + 2) = (100 :: u16) \<and>
   [100, 0, 100, 0, 65535, 0] ! (1 * 3 + 2) = (0 :: u16)"
  by code_simp

section \<open>Empty frames\<close>

text \<open>
  On a well-formed filter state \<open>ma_filter\<close> with the count 0 returns and moves the
  cursor: it has no test for an empty frame.
\<close>

lemma ma_filter_zero_advances:
  assumes wf: "filter_wf s"
  shows "\<exists>ft nf s1. ma_filter s 0 = Some (ft, nf, s1) \<and> ma_i s1 \<noteq> ma_i s"
proof -
  have m: "ma_filter s 0 = Some (observe s 0)" by (rule ma_filter_observe [OF wf])
  have ne: "(ma_i s + 1) mod window_size s \<noteq> ma_i s"
  proof (cases "ma_i s + 1 = window_size s")
    case True
    then show ?thesis using wf by (simp add: filter_wf_def)
  next
    case False
    then have "(ma_i s + 1) mod window_size s = ma_i s + 1"
      using wf by (simp add: filter_wf_def mod_pos_pos_trivial)
    then show ?thesis by simp
  qed
  have "ma_filter s 0 = Some (fst (observe s 0), fst (snd (observe s 0)), snd (snd (observe s 0)))"
    unfolding m by (simp add: observe_def)
  moreover have "ma_i (snd (snd (observe s 0))) \<noteq> ma_i s"
    using ne by (simp add: observe_def)
  ultimately show ?thesis by blast
qed

text \<open>
  C9.  The claim asks that a frame on an empty grid is a no-op.  \<open>lookformotion\<close> has no
  test for an empty grid, and on one it does not return.  When there is no macroblock
  (\<open>(mctx.width - 1) * mctx.height = 0\<close>: no macroblock column or no row), and likewise
  when the loop has no index to visit (\<open>mctx.width * mctx.height = 0\<close>), the call of
  \<open>dumppng\<close> that precedes \<open>ma_filter\<close> hands libpng an image without columns or
  without rows, and libpng ends the process.  Such a grid is what \<open>initmotion\<close> sets up,
  returning 0, for a picture of height 0 or of width 0.
\<close>

theorem C9_empty_frame_aborts:
  assumes "(width s - 1) * height s = 0 \<or> width s * height s = 0"
  shows "dumppng v s = None \<and> lookformotion v s = None"
proof -
  from assms have "\<not> (1 \<le> width s - 1 \<and> 1 \<le> height s)"
    by auto
  then have d: "dumppng v s = None"
    by (simp add: dumppng_def split: option.splits)
  then show ?thesis
    by (simp add: lookformotion_def split: option.splits)
qed

theorem C9_empty_frame_aborts_witness:
  "initmotion zero_junk 16 0 None 10 0 12 = Some (0, example_empty) \<and>
   width example_empty * height example_empty = 0 \<and>
   lookformotion_loop (mapc example_empty) []
     (width example_empty * height example_empty) 0 0 = Some 0 \<and>
   dumppng_rows [] (width example_empty) (height example_empty) 0 = Some () \<and>
   dumppng [] example_empty = None \<and> lookformotion [] example_empty = None"
proof -
  have i: "initmotion zero_junk 16 0 None 10 0 12 = Some (0, example_empty)"
    by code_simp
  have n: "width example_empty * height example_empty = 0"
    by (simp add: example_empty_def)
  have l: "lookformotion_loop (mapc example_empty) []
     (width example_empty * height example_empty) 0 0 = Some 0"
    by code_simp
  have d: "dumppng_rows [] (width example_empty) (height example_empty) 0 = Some ()"
    by code_simp
  from C9_empty_frame_aborts [of example_empty "[]"] n i l d show ?thesis
    by simp
qed

section \<open>The frame handoff\<close>

lemma findmotion_fields:
  "vectors (findmotion out s) = Some (brk s)"
  "brk (findmotion out s) = Suc (brk s)"
  "freed (findmotion out s) = freed s @ (case vectors s of None \<Rightarrow> [] | Some p \<Rightarrow> [p])"
  "heap (findmotion out s) =
     (case vectors s of None \<Rightarrow> (brk s, out) # heap s
      | Some p \<Rightarrow> filter (\<lambda>(b, buf). b \<noteq> p) ((brk s, out) # heap s))"
  by (simp_all add: findmotion_def av_free_def Let_def split: option.splits)

lemma heap_wf_findmotion: "heap_wf s \<Longrightarrow> heap_wf (findmotion out s)"
  unfolding heap_wf_def findmotion_fields
  by (auto simp: list_all_iff split: option.splits)

lemma heap_wf_take: "heap_wf s \<Longrightarrow> heap_wf (snd (motionstart_take s))"
  by (simp add: heap_wf_def motionstart_take_def)

lemma lookformotion_heap:
  "lookformotion v s = Some s' \<Longrightarrow>
     freed s' = freed s \<and> heap s' = heap s \<and> brk s' = brk s \<and> vectors s' = vectors s"
  by (auto simp: lookformotion_def dumppng_def ma_filter_def Let_def
      split: option.splits if_splits prod.splits)

lemma motionstart_turn_freed:
  "motionstart_turn s = Some s' \<Longrightarrow>
     vectors s' = None \<and> freed s' = freed s @ (case vectors s of None \<Rightarrow> [] | Some p \<Rightarrow> [p])"
  by (auto simp: motionstart_turn_def motionstart_take_def av_free_def Let_def
           dest!: lookformotion_heap split: option.splits)

text \<open>
  C6.  The locked sections are atomic steps: \<open>findmotion\<close> is a publish, and the
  worker's section between the return of \<open>pthread_cond_wait\<close> and the unlock is a take.
  When the producer publishes frame \<open>a\<close> and then frame \<open>b\<close> with no take in between,
  the mailbox afterwards holds the copy of \<open>b\<close> (at the address \<open>brk s + 1\<close>), a live
  buffer with the contents \<open>b\<close>; the copy of \<open>a\<close> (at the address \<open>brk s\<close>) is no
  longer live, the second publish freed it and nothing else, and it occurs exactly once
  among all freed addresses; the next take returns the copy of \<open>b\<close> and frees nothing,
  and a take after that finds the mailbox empty.  A whole turn of the worker on that
  state, when it returns, has freed the copy of \<open>b\<close> and nothing else: the copy of
  \<open>a\<close> is still freed exactly once.
\<close>

theorem C6_latest_frame_wins:
  assumes "heap_wf s"
  shows "vectors (findmotion b (findmotion a s)) = Some (Suc (brk s)) \<and>
     map_of (heap (findmotion b (findmotion a s))) (Suc (brk s)) = Some b \<and>
     map_of (heap (findmotion b (findmotion a s))) (brk s) = None \<and>
     freed (findmotion b (findmotion a s)) = freed (findmotion a s) @ [brk s] \<and>
     count_list (freed (findmotion b (findmotion a s))) (brk s) = 1 \<and>
     fst (motionstart_take (findmotion b (findmotion a s))) = Some (Suc (brk s)) \<and>
     fst (motionstart_take (snd (motionstart_take (findmotion b (findmotion a s))))) = None \<and>
     freed (snd (motionstart_take (findmotion b (findmotion a s)))) =
       freed (findmotion b (findmotion a s)) \<and>
     (\<forall>s'. motionstart_turn (findmotion b (findmotion a s)) = Some s' \<longrightarrow>
        freed s' = freed (findmotion a s) @ [brk s, Suc (brk s)] \<and>
        count_list (freed s') (brk s) = 1)"
proof -
  let ?s1 = "findmotion a s" and ?s2 = "findmotion b (findmotion a s)"
  have v1: "vectors ?s1 = Some (brk s)" and b1: "brk ?s1 = Suc (brk s)"
    by (simp_all add: findmotion_fields)
  have v2: "vectors ?s2 = Some (Suc (brk s))"
    by (simp add: findmotion_fields)
  have f2: "freed ?s2 = freed ?s1 @ [brk s]"
    by (simp add: findmotion_fields(3) [of b] v1)
  have h2: "heap ?s2 = filter (\<lambda>(p, buf). p \<noteq> brk s) ((Suc (brk s), b) # heap ?s1)"
    by (simp add: findmotion_fields(4) [of b] v1 b1)
  have m1: "map_of (heap ?s2) (Suc (brk s)) = Some b"
    unfolding h2 by simp
  have m2: "map_of (heap ?s2) (brk s) = None"
    unfolding h2 by (simp add: map_of_eq_None_iff image_iff)
  have fresh: "brk s \<notin> set (freed ?s1)"
    using assms unfolding heap_wf_def findmotion_fields
    by (auto simp: list_all_iff split: option.splits)
  then have c: "count_list (freed ?s2) (brk s) = 1"
    unfolding f2 by (simp add: count_list_0_iff)
  have turn: "freed s' = freed ?s1 @ [brk s, Suc (brk s)] \<and> count_list (freed s') (brk s) = 1"
    if "motionstart_turn ?s2 = Some s'" for s'
  proof -
    have "freed s' = freed ?s2 @ [Suc (brk s)]"
      using motionstart_turn_freed [OF that] v2 by simp
    then have "freed s' = freed ?s1 @ [brk s, Suc (brk s)]" unfolding f2 by simp
    then show ?thesis using fresh by (simp add: count_list_0_iff)
  qed
  show ?thesis
    using v2 m1 m2 f2 c turn by (simp add: motionstart_take_def)
qed

theorem C6_latest_frame_wins_witness:
  "heap_wf example_init \<and>
   vectors (findmotion spike_frame (findmotion quiet_frame example_init)) = Some 1 \<and>
   heap (findmotion spike_frame (findmotion quiet_frame example_init)) = [(1, spike_frame)] \<and>
   freed (findmotion spike_frame (findmotion quiet_frame example_init)) = [0] \<and>
   count_list (freed (findmotion spike_frame (findmotion quiet_frame example_init))) (brk example_init) = 1 \<and>
   map_option freed (motionstart_turn (findmotion spike_frame (findmotion quiet_frame example_init)))
     = Some [0, 1]"
proof -
  have h: "heap_wf example_init" by (simp add: heap_wf_def example_init_def)
  have e: "vectors (findmotion spike_frame (findmotion quiet_frame example_init)) = Some 1"
    "heap (findmotion spike_frame (findmotion quiet_frame example_init)) = [(1, spike_frame)]"
    "freed (findmotion spike_frame (findmotion quiet_frame example_init)) = [0]"
    "map_option freed (motionstart_turn (findmotion spike_frame (findmotion quiet_frame example_init)))
       = Some [0, 1]"
    by code_simp+
  from C6_latest_frame_wins [OF h, of spike_frame quiet_frame] h e show ?thesis
    by simp
qed

end
